theory Spec2Isabelle
  imports Main "HOL-Library.Word"
begin

section \<open>EncryptedDocumentVault: the ledger-side document registry\<close>

text \<open>
  The contract \<^verbatim>\<open>EncryptedDocumentVault\<close> (Solidity 0.8.27) keeps a counter, a
  mapping of document records, two per-address index arrays and a membership flag.
  A call either returns (the new storage is kept) or reverts (the storage the call
  started from stays); a revert is the \<open>Inl\<close> branch of the result.
\<close>

subsection \<open>Data\<close>

type_synonym address = "160 word"
type_synonym eaddress = "256 word"
type_synonym externalEaddress = "256 word"
type_synonym bytes = "8 word list"

text \<open>\<^verbatim>\<open>type(uint256).max\<close>: identifiers, timestamps and block numbers are \<open>uint256\<close>;
  they are natural numbers here and the one checked arithmetic step that can leave the
  range (\<^verbatim>\<open>_nextId++\<close>) has its panic written out.\<close>

definition uint256_max :: nat where
  "uint256_max = 2 ^ 256 - 1"

record Document =
  owner :: address
  name :: string
  encryptedBody :: string
  accessKey :: eaddress
  createdAt :: nat
  updatedAt :: nat
  lastEditorBlock :: nat

text \<open>The value every slot of \<^verbatim>\<open>_documents\<close> holds before it is written.\<close>

definition zeroDocument :: Document where
  "zeroDocument = \<lparr>owner = 0, name = [], encryptedBody = [], accessKey = 0,
     createdAt = 0, updatedAt = 0, lastEditorBlock = 0\<rparr>"

datatype event =
    DocumentCreated nat address string
  | DocumentUpdated nat address string
  | AccessGranted nat address

text \<open>The reasons a call reverts: the four \<^verbatim>\<open>require\<close> messages of the contract
  (\<^verbatim>\<open>"Name required"\<close>, \<^verbatim>\<open>"Invalid grantee"\<close>, \<^verbatim>\<open>"Document not found"\<close>,
  \<^verbatim>\<open>"Sender not authorized for key"\<close>), the rejection of an input proof by the engine, and
  the arithmetic panic of checked \<open>uint256\<close> operations.\<close>

datatype error =
    NameRequired
  | InvalidGrantee
  | NotFound
  | Unauthorized
  | ProofInvalid
  | Panic

text \<open>What a call sees of its transaction: \<^verbatim>\<open>msg.sender\<close>, \<^verbatim>\<open>block.timestamp\<close>,
  \<^verbatim>\<open>block.number\<close>.\<close>

record env =
  msg_sender :: address
  block_timestamp :: nat
  block_number :: nat

text \<open>
  The storage of the contract, the log of emitted events, and the permission state of the
  confidential-compute engine.

  Modelled from the spec: the engine (the \<^verbatim>\<open>FHE\<close> library of \<^verbatim>\<open>@fhevm/solidity\<close>:
  \<^verbatim>\<open>fromExternal\<close>, \<^verbatim>\<open>allowThis\<close>, \<^verbatim>\<open>allow\<close>, \<^verbatim>\<open>isSenderAllowed\<close>) is not part of the
  sources. Its permission state is the relation \<open>acl\<close> between handles and principals:
  a grant adds a pair (granting twice changes nothing more), the check reads the relation.
  \<open>aclCalls\<close> records every grant the contract asks of the engine, in order.
  \<open>thisAddress\<close> is \<^verbatim>\<open>address(this)\<close>.
\<close>

record vault =
  nextId :: nat
  documents :: "nat \<Rightarrow> Document"
  ownedDocuments :: "address \<Rightarrow> nat list"
  sharedDocuments :: "address \<Rightarrow> nat list"
  isSharedWith :: "nat \<Rightarrow> address \<Rightarrow> bool"
  events :: "event list"
  acl :: "eaddress \<Rightarrow> address \<Rightarrow> bool"
  aclCalls :: "(eaddress \<times> address) list"
  thisAddress :: address

text \<open>Modelled from the spec: import of an externally encrypted secret. The engine checks
  the proof against the ciphertext and the submitter and returns the handle, or rejects;
  the check itself is the engine's and is a parameter of the model.\<close>

type_synonym importer = "externalEaddress \<Rightarrow> bytes \<Rightarrow> address \<Rightarrow> eaddress option"

subsection \<open>The engine's primitives\<close>

definition FHE_allow :: "eaddress \<Rightarrow> address \<Rightarrow> vault \<Rightarrow> vault" where
  "FHE_allow h a s =
     s\<lparr>acl := (acl s)(h := (acl s h)(a := True)), aclCalls := aclCalls s @ [(h, a)]\<rparr>"

definition FHE_allowThis :: "eaddress \<Rightarrow> vault \<Rightarrow> vault" where
  "FHE_allowThis h s = FHE_allow h (thisAddress s) s"

definition FHE_isSenderAllowed :: "env \<Rightarrow> eaddress \<Rightarrow> vault \<Rightarrow> bool" where
  "FHE_isSenderAllowed e h s = acl s h (msg_sender e)"

definition emit :: "event \<Rightarrow> vault \<Rightarrow> vault" where
  "emit ev s = s\<lparr>events := events s @ [ev]\<rparr>"

subsection \<open>Private helpers\<close>

text \<open>\<^verbatim>\<open>_requireAccess\<close> and \<^verbatim>\<open>_getDocument\<close>.\<close>

definition priv_requireAccess :: "env \<Rightarrow> eaddress \<Rightarrow> vault \<Rightarrow> error + unit" where
  "priv_requireAccess e k s =
     (if FHE_isSenderAllowed e k s then Inr () else Inl Unauthorized)"

definition priv_getDocument :: "vault \<Rightarrow> nat \<Rightarrow> error + Document" where
  "priv_getDocument s documentId =
     (let doc = documents s documentId
      in if owner doc \<noteq> 0 then Inr doc else Inl NotFound)"

subsection \<open>State-changing functions\<close>

definition createDocument ::
  "importer \<Rightarrow> env \<Rightarrow> string \<Rightarrow> string \<Rightarrow> externalEaddress \<Rightarrow> bytes \<Rightarrow> vault
     \<Rightarrow> error + (nat \<times> vault)" where
  "createDocument fromExternal e nm body encryptedAccessKey inputProof s =
     (if \<not> (length nm > 0) then Inl NameRequired
      else case fromExternal encryptedAccessKey inputProof (msg_sender e) of
        None \<Rightarrow> Inl ProofInvalid
      | Some validatedKey \<Rightarrow>
          if nextId s \<ge> uint256_max then Inl Panic
          else
            let documentId = nextId s;
                s1 = s\<lparr>nextId := nextId s + 1\<rparr>;
                s2 = s1\<lparr>documents := (documents s1)(documentId :=
                       \<lparr>owner = msg_sender e, name = nm, encryptedBody = body,
                        accessKey = validatedKey, createdAt = block_timestamp e,
                        updatedAt = block_timestamp e, lastEditorBlock = block_number e\<rparr>)\<rparr>;
                s3 = s2\<lparr>ownedDocuments := (ownedDocuments s2)(msg_sender e :=
                       ownedDocuments s2 (msg_sender e) @ [documentId])\<rparr>;
                s4 = FHE_allowThis validatedKey s3;
                s5 = FHE_allow validatedKey (msg_sender e) s4
            in Inr (documentId, emit (DocumentCreated documentId (msg_sender e) nm) s5))"

definition updateDocumentBody :: "env \<Rightarrow> nat \<Rightarrow> string \<Rightarrow> vault \<Rightarrow> error + vault" where
  "updateDocumentBody e documentId newEncryptedBody s =
     (case priv_getDocument s documentId of
        Inl err \<Rightarrow> Inl err
      | Inr doc \<Rightarrow>
          (case priv_requireAccess e (accessKey doc) s of
             Inl err \<Rightarrow> Inl err
           | Inr _ \<Rightarrow>
               let s1 = s\<lparr>documents := (documents s)(documentId :=
                          (documents s documentId)\<lparr>encryptedBody := newEncryptedBody\<rparr>)\<rparr>;
                   s2 = s1\<lparr>documents := (documents s1)(documentId :=
                          (documents s1 documentId)\<lparr>updatedAt := block_timestamp e\<rparr>)\<rparr>;
                   s3 = s2\<lparr>documents := (documents s2)(documentId :=
                          (documents s2 documentId)\<lparr>lastEditorBlock := block_number e\<rparr>)\<rparr>
               in Inr (emit (DocumentUpdated documentId (msg_sender e) newEncryptedBody) s3)))"

definition grantAccess :: "env \<Rightarrow> nat \<Rightarrow> address \<Rightarrow> vault \<Rightarrow> error + vault" where
  "grantAccess e documentId grantee s =
     (if \<not> (grantee \<noteq> 0) then Inl InvalidGrantee
      else case priv_getDocument s documentId of
        Inl err \<Rightarrow> Inl err
      | Inr doc \<Rightarrow>
          (case priv_requireAccess e (accessKey doc) s of
             Inl err \<Rightarrow> Inl err
           | Inr _ \<Rightarrow>
               let s1 = (if \<not> isSharedWith s documentId grantee
                         then s\<lparr>isSharedWith := (isSharedWith s)(documentId :=
                                  (isSharedWith s documentId)(grantee := True)),
                                sharedDocuments := (sharedDocuments s)(grantee :=
                                  sharedDocuments s grantee @ [documentId])\<rparr>
                         else s);
                   s2 = FHE_allow (accessKey doc) grantee s1
               in Inr (emit (AccessGranted documentId grantee) s2)))"

subsection \<open>Views\<close>

definition getDocument :: "vault \<Rightarrow> nat \<Rightarrow> error + Document" where
  "getDocument s documentId = priv_getDocument s documentId"

definition getOwnedDocumentIds :: "vault \<Rightarrow> address \<Rightarrow> nat list" where
  "getOwnedDocumentIds s a = ownedDocuments s a"

definition getSharedDocumentIds :: "vault \<Rightarrow> address \<Rightarrow> nat list" where
  "getSharedDocumentIds s user = sharedDocuments s user"

definition documentExists :: "vault \<Rightarrow> nat \<Rightarrow> bool" where
  "documentExists s documentId = (owner (documents s documentId) \<noteq> 0)"

text \<open>\<^verbatim>\<open>_nextId - 1\<close> is checked: it would panic at \<open>_nextId = 0\<close>.\<close>

definition totalDocuments :: "vault \<Rightarrow> error + nat" where
  "totalDocuments s = (if nextId s < 1 then Inl Panic else Inr (nextId s - 1))"

subsection \<open>Deployment and transactions\<close>

text \<open>The storage after deployment: \<^verbatim>\<open>_nextId = 1\<close>, every mapping at its zero value.
  The engine's permission relation at that moment is whatever it is.\<close>

definition deploy :: "address \<Rightarrow> (eaddress \<Rightarrow> address \<Rightarrow> bool) \<Rightarrow> vault" where
  "deploy this acl0 =
     \<lparr>nextId = 1, documents = (\<lambda>_. zeroDocument), ownedDocuments = (\<lambda>_. []),
      sharedDocuments = (\<lambda>_. []), isSharedWith = (\<lambda>_ _. False), events = [],
      acl = acl0, aclCalls = [], thisAddress = this\<rparr>"

datatype call =
    CreateDocument string string externalEaddress bytes
  | UpdateDocumentBody nat string
  | GrantAccess nat address

datatype outcome = Created nat | Done | Reverted error

text \<open>A transaction is atomic: a reverted call leaves the state it started from.\<close>

fun transact :: "importer \<Rightarrow> env \<times> call \<Rightarrow> vault \<Rightarrow> vault \<times> outcome" where
  "transact fromExternal (e, CreateDocument nm body k pf) s =
     (case createDocument fromExternal e nm body k pf s of
        Inl err \<Rightarrow> (s, Reverted err)
      | Inr (documentId, s') \<Rightarrow> (s', Created documentId))"
| "transact fromExternal (e, UpdateDocumentBody documentId body) s =
     (case updateDocumentBody e documentId body s of
        Inl err \<Rightarrow> (s, Reverted err)
      | Inr s' \<Rightarrow> (s', Done))"
| "transact fromExternal (e, GrantAccess documentId grantee) s =
     (case grantAccess e documentId grantee s of
        Inl err \<Rightarrow> (s, Reverted err)
      | Inr s' \<Rightarrow> (s', Done))"

fun run :: "importer \<Rightarrow> vault \<Rightarrow> (env \<times> call) list \<Rightarrow> vault \<times> outcome list" where
  "run fromExternal s [] = (s, [])"
| "run fromExternal s (t # ts) =
     (let (s', r) = transact fromExternal t s;
          (s'', rs) = run fromExternal s' ts
      in (s'', r # rs))"

fun createdIds :: "outcome list \<Rightarrow> nat list" where
  "createdIds [] = []"
| "createdIds (Created i # rs) = i # createdIds rs"
| "createdIds (_ # rs) = createdIds rs"


text \<open>The state a deployed vault reaches through a list of transactions.\<close>

definition reached ::
  "importer \<Rightarrow> address \<Rightarrow> (eaddress \<Rightarrow> address \<Rightarrow> bool) \<Rightarrow> (env \<times> call) list \<Rightarrow> vault" where
  "reached fromExternal this acl0 txs = fst (run fromExternal (deploy this acl0) txs)"

text \<open>What every reachable state satisfies: the counter is positive, no record has been
  written at or above the counter, an identifier is in a principal's shared list exactly
  once when the membership flag is set and not at all otherwise, and an existing document
  is in its owner's list.\<close>

definition vault_inv :: "vault \<Rightarrow> bool" where
  "vault_inv s \<longleftrightarrow>
     1 \<le> nextId s
     \<and> (\<forall>d. nextId s \<le> d \<longrightarrow> owner (documents s d) = 0)
     \<and> (\<forall>d g. count_list (sharedDocuments s g) d = (if isSharedWith s d g then 1 else 0))
     \<and> (\<forall>d. owner (documents s d) \<noteq> 0 \<longrightarrow> d \<in> set (ownedDocuments s (owner (documents s d))))"

section \<open>SymmetricEnvelope: the client-side body encryption\<close>

text \<open>
  \<^verbatim>\<open>utils/crypto.ts\<close>. A JavaScript string is a sequence of 16-bit code units; a
  \<^verbatim>\<open>Uint8Array\<close> is a list of bytes.

  The functions of the file call the platform: \<^verbatim>\<open>TextEncoder\<close>, \<^verbatim>\<open>TextDecoder\<close>,
  \<^verbatim>\<open>String.prototype.toLowerCase\<close>, \<^verbatim>\<open>btoa\<close>, \<^verbatim>\<open>atob\<close> and \<^verbatim>\<open>crypto.subtle\<close>
  (\<^verbatim>\<open>digest\<close>, \<^verbatim>\<open>importKey\<close>, \<^verbatim>\<open>encrypt\<close>, \<^verbatim>\<open>decrypt\<close>). None of these is part of the
  sources; they are the fields of a record the model takes as a parameter. A call that
  can throw or reject returns a sum. The draw of \<^verbatim>\<open>crypto.getRandomValues\<close> is the
  argument \<open>iv\<close> of the encryption.
\<close>

type_synonym jsstring = "16 word list"

datatype js_error = InvalidCharacterError | DataError | OperationError

record 'k platform =
  textEncode :: "jsstring \<Rightarrow> bytes"
  textDecode :: "bytes \<Rightarrow> jsstring"
  toLowerCase :: "jsstring \<Rightarrow> jsstring"
  btoa :: "jsstring \<Rightarrow> js_error + jsstring"
  atob :: "jsstring \<Rightarrow> js_error + jsstring"
  digestSHA256 :: "bytes \<Rightarrow> bytes"
  importKey :: "bytes \<Rightarrow> js_error + 'k"
  encryptAESGCM :: "'k \<Rightarrow> bytes \<Rightarrow> bytes \<Rightarrow> js_error + bytes"
  decryptAESGCM :: "'k \<Rightarrow> bytes \<Rightarrow> bytes \<Rightarrow> js_error + bytes"

definition deriveKey :: "'k platform \<Rightarrow> jsstring \<Rightarrow> js_error + 'k" where
  "deriveKey P addressKey =
     (let normalized = toLowerCase P addressKey;
          hash = digestSHA256 P (textEncode P normalized)
      in importKey P hash)"

text \<open>\<^verbatim>\<open>binary += String.fromCharCode(b)\<close> for each byte, then \<^verbatim>\<open>btoa\<close>.\<close>

definition toBase64 :: "'k platform \<Rightarrow> bytes \<Rightarrow> js_error + jsstring" where
  "toBase64 P bs = btoa P (map (\<lambda>b. (ucast b :: 16 word)) bs)"

text \<open>\<^verbatim>\<open>bytes[i] = binary.charCodeAt(i)\<close>: a store into a \<^verbatim>\<open>Uint8Array\<close> keeps the low
  eight bits.\<close>

definition fromBase64 :: "'k platform \<Rightarrow> jsstring \<Rightarrow> js_error + bytes" where
  "fromBase64 P v =
     (case atob P v of
        Inl err \<Rightarrow> Inl err
      | Inr binary \<Rightarrow> Inr (map (\<lambda>c. (ucast c :: 8 word)) binary))"

definition encryptBodyWithKey ::
  "'k platform \<Rightarrow> jsstring \<Rightarrow> jsstring \<Rightarrow> bytes \<Rightarrow> js_error + jsstring" where
  "encryptBodyWithKey P body addressKey iv =
     (if length body = 0 then Inr []
      else case deriveKey P addressKey of
        Inl err \<Rightarrow> Inl err
      | Inr key \<Rightarrow>
          (case encryptAESGCM P key iv (textEncode P body) of
             Inl err \<Rightarrow> Inl err
           | Inr cipherBuffer \<Rightarrow> toBase64 P (iv @ cipherBuffer)))"

definition decryptBodyWithKey ::
  "'k platform \<Rightarrow> jsstring \<Rightarrow> jsstring \<Rightarrow> js_error + jsstring" where
  "decryptBodyWithKey P payload addressKey =
     (if payload = [] then Inr []
      else case fromBase64 P payload of
        Inl err \<Rightarrow> Inl err
      | Inr raw \<Rightarrow>
          (let iv = take 12 raw; cipher = drop 12 raw
           in case deriveKey P addressKey of
                Inl err \<Rightarrow> Inl err
              | Inr key \<Rightarrow>
                  (case decryptAESGCM P key iv cipher of
                     Inl err \<Rightarrow> Inl err
                   | Inr decrypted \<Rightarrow> Inr (textDecode P decrypted))))"

subsection \<open>The platform's text codec and base64\<close>

text \<open>
  Modelled from the platform standards: \<^verbatim>\<open>TextEncoder.encode\<close>,
  \<^verbatim>\<open>new TextDecoder().decode\<close>, \<^verbatim>\<open>btoa\<close> and \<^verbatim>\<open>atob\<close> are called by
  \<^verbatim>\<open>utils/crypto.ts\<close> and are not part of the sources. They are not used by the
  definitions above, which take the platform as a parameter; they are the codec and the
  base64 of the concrete platform \<open>web\<close> below.

  The encoder turns the string into scalar values (a surrogate pair is one value, a
  surrogate on its own becomes U+FFFD) and writes each in UTF-8. The decoder is the UTF-8
  decoder of the Encoding standard, byte by byte, with its state (code point, bytes seen,
  bytes needed, lower and upper boundary of the next byte); an offending byte gives
  U+FFFD and is read again in the initial state. The decoder is built without options,
  so a leading U+FEFF is dropped from the output.
\<close>

definition isHighSurrogate :: "16 word \<Rightarrow> bool" where
  "isHighSurrogate c \<longleftrightarrow> 55296 \<le> unat c \<and> unat c \<le> 56319"

definition isLowSurrogate :: "16 word \<Rightarrow> bool" where
  "isLowSurrogate c \<longleftrightarrow> 56320 \<le> unat c \<and> unat c \<le> 57343"

fun scalarValues :: "jsstring \<Rightarrow> nat list" where
  "scalarValues [] = []"
| "scalarValues [c] =
     (if isHighSurrogate c \<or> isLowSurrogate c then [65533] else [unat c])"
| "scalarValues (c # d # cs) =
     (if isHighSurrogate c \<and> isLowSurrogate d
      then (65536 + (unat c - 55296) * 1024 + (unat d - 56320)) # scalarValues cs
      else if isHighSurrogate c \<or> isLowSurrogate c then 65533 # scalarValues (d # cs)
      else unat c # scalarValues (d # cs))"

definition utf8Bytes :: "nat \<Rightarrow> nat list" where
  "utf8Bytes v =
     (if v < 128 then [v]
      else if v < 2048 then [192 + v div 64, 128 + v mod 64]
      else if v < 65536 then [224 + v div 4096, 128 + (v div 64) mod 64, 128 + v mod 64]
      else [240 + v div 262144, 128 + (v div 4096) mod 64, 128 + (v div 64) mod 64,
            128 + v mod 64])"

definition TextEncoder_encode :: "jsstring \<Rightarrow> bytes" where
  "TextEncoder_encode s = map of_nat (concat (map utf8Bytes (scalarValues s)))"

function utf8Decode :: "nat \<Rightarrow> nat \<Rightarrow> nat \<Rightarrow> nat \<Rightarrow> nat \<Rightarrow> nat list \<Rightarrow> nat list" where
  "utf8Decode cp seen needed lo hi [] = (if needed \<noteq> 0 then [65533] else [])"
| "utf8Decode cp seen needed lo hi (b # bs) =
     (if needed = 0 then
        (if b \<le> 127 then b # utf8Decode 0 0 0 128 191 bs
         else if 194 \<le> b \<and> b \<le> 223 then utf8Decode (b mod 32) 0 1 128 191 bs
         else if 224 \<le> b \<and> b \<le> 239
           then utf8Decode (b mod 16) 0 2 (if b = 224 then 160 else 128)
                  (if b = 237 then 159 else 191) bs
         else if 240 \<le> b \<and> b \<le> 244
           then utf8Decode (b mod 8) 0 3 (if b = 240 then 144 else 128)
                  (if b = 244 then 143 else 191) bs
         else 65533 # utf8Decode 0 0 0 128 191 bs)
      else if \<not> (lo \<le> b \<and> b \<le> hi) then 65533 # utf8Decode 0 0 0 128 191 (b # bs)
      else if seen + 1 \<noteq> needed
        then utf8Decode (cp * 64 + b mod 64) (seen + 1) needed 128 191 bs
      else (cp * 64 + b mod 64) # utf8Decode 0 0 0 128 191 bs)"
  by pat_completeness auto
termination
  by (relation "measure (\<lambda>(cp, seen, needed, lo, hi, bs).
        2 * length bs + (if needed = 0 then 0 else 1))") auto

definition utf16Units :: "nat \<Rightarrow> jsstring" where
  "utf16Units v =
     (if v < 65536 then [of_nat v]
      else [of_nat (55296 + (v - 65536) div 1024), of_nat (56320 + (v - 65536) mod 1024)])"

definition dropBOM :: "nat list \<Rightarrow> nat list" where
  "dropBOM vs = (case vs of [] \<Rightarrow> [] | v # rest \<Rightarrow> if v = 65279 then rest else vs)"

definition TextDecoder_decode :: "bytes \<Rightarrow> jsstring" where
  "TextDecoder_decode bs =
     concat (map utf16Units (dropBOM (utf8Decode 0 0 0 128 191 (map unat bs))))"

text \<open>A string is well formed when every surrogate is half of a pair; a scalar value is a
  code point that is not a surrogate.\<close>

fun wellFormed :: "jsstring \<Rightarrow> bool" where
  "wellFormed [] = True"
| "wellFormed [c] = (\<not> isHighSurrogate c \<and> \<not> isLowSurrogate c)"
| "wellFormed (c # d # cs) =
     (if isHighSurrogate c then isLowSurrogate d \<and> wellFormed cs
      else \<not> isLowSurrogate c \<and> wellFormed (d # cs))"

definition isScalar :: "nat \<Rightarrow> bool" where
  "isScalar v \<longleftrightarrow> v < 1114112 \<and> \<not> (55296 \<le> v \<and> v \<le> 57343)"

text \<open>\<^verbatim>\<open>btoa\<close> throws on a code unit above 255 and writes three bytes as four characters
  of the alphabet, padding with \<^verbatim>\<open>=\<close>. \<^verbatim>\<open>atob\<close> is the forgiving decode: it removes ASCII
  whitespace, removes one or two trailing \<^verbatim>\<open>=\<close> when the length is a multiple of four,
  throws when the remaining length is 1 modulo 4 or a character is outside the alphabet,
  and reads four characters as three bytes.\<close>

definition b64Char :: "nat \<Rightarrow> nat" where
  "b64Char n =
     (if n < 26 then 65 + n else if n < 52 then 71 + n else if n < 62 then n - 4
      else if n = 62 then 43 else 47)"

fun b64Encode :: "nat list \<Rightarrow> nat list" where
  "b64Encode (a # b # c # rest) =
     b64Char (a div 4) # b64Char ((a mod 4) * 16 + b div 16)
       # b64Char ((b mod 16) * 4 + c div 64) # b64Char (c mod 64) # b64Encode rest"
| "b64Encode [a, b] =
     [b64Char (a div 4), b64Char ((a mod 4) * 16 + b div 16), b64Char ((b mod 16) * 4), 61]"
| "b64Encode [a] = [b64Char (a div 4), b64Char ((a mod 4) * 16), 61, 61]"
| "b64Encode [] = []"

definition btoa_std :: "jsstring \<Rightarrow> js_error + jsstring" where
  "btoa_std s =
     (if list_all (\<lambda>c. unat c \<le> 255) s then Inr (map of_nat (b64Encode (map unat s)))
      else Inl InvalidCharacterError)"

definition isAsciiWhitespace :: "16 word \<Rightarrow> bool" where
  "isAsciiWhitespace c \<longleftrightarrow> unat c = 9 \<or> unat c = 10 \<or> unat c = 12 \<or> unat c = 13 \<or> unat c = 32"

definition b64Value :: "16 word \<Rightarrow> nat option" where
  "b64Value c =
     (let n = unat c
      in if 65 \<le> n \<and> n \<le> 90 then Some (n - 65)
         else if 97 \<le> n \<and> n \<le> 122 then Some (n - 71)
         else if 48 \<le> n \<and> n \<le> 57 then Some (n + 4)
         else if n = 43 then Some 62
         else if n = 47 then Some 63
         else None)"

fun b64Decode :: "nat list \<Rightarrow> nat list" where
  "b64Decode (a # b # c # d # rest) =
     (a * 4 + b div 16) # ((b mod 16) * 16 + c div 4) # ((c mod 4) * 64 + d) # b64Decode rest"
| "b64Decode [a, b, c] = [a * 4 + b div 16, (b mod 16) * 16 + c div 4]"
| "b64Decode [a, b] = [a * 4 + b div 16]"
| "b64Decode _ = []"

definition stripPadding :: "jsstring \<Rightarrow> jsstring" where
  "stripPadding d =
     (if length d mod 4 = 0 \<and> d \<noteq> [] \<and> last d = 61
      then (if butlast d \<noteq> [] \<and> last (butlast d) = 61 then butlast (butlast d)
            else butlast d)
      else d)"

definition atob_std :: "jsstring \<Rightarrow> js_error + jsstring" where
  "atob_std s =
     (let d = stripPadding (filter (\<lambda>c. \<not> isAsciiWhitespace c) s)
      in if length d mod 4 = 1 then Inl InvalidCharacterError
         else case those (map b64Value d) of
                None \<Rightarrow> Inl InvalidCharacterError
              | Some vs \<Rightarrow> Inr (map of_nat (b64Decode vs)))"

text \<open>The six-bit groups of a byte string, which \<open>b64Encode\<close> writes as characters.\<close>

fun sextets :: "nat list \<Rightarrow> nat list" where
  "sextets (a # b # c # rest) =
     a div 4 # ((a mod 4) * 16 + b div 16) # ((b mod 16) * 4 + c div 64) # c mod 64
       # sextets rest"
| "sextets [a, b] = [a div 4, (a mod 4) * 16 + b div 16, (b mod 16) * 4]"
| "sextets [a] = [a div 4, (a mod 4) * 16]"
| "sextets [] = []"

section \<open>Concrete scenarios\<close>

text \<open>Principals, an importer that accepts every non-empty proof and hands the external
  handle back, and the vault after \<open>alice\<close> has created document 1.\<close>

definition alice :: address where "alice = 161"
definition bob :: address where "bob = 176"
definition carol :: address where "carol = 192"

definition demo_import :: importer where
  "demo_import k pf a = (if pf = [] then None else Some k)"

definition at :: "address \<Rightarrow> nat \<Rightarrow> nat \<Rightarrow> env" where
  "at a ts bn = \<lparr>msg_sender = a, block_timestamp = ts, block_number = bn\<rparr>"

definition demo_txs :: "(env \<times> call) list" where
  "demo_txs = [(at alice 100 7, CreateDocument ''Genesis'' [] 5 [1])]"

definition demo_vault :: vault where
  "demo_vault = fst (run demo_import (deploy 4096 (\<lambda>_ _. False)) demo_txs)"

text \<open>A longer history: \<open>alice\<close> creates document 1, a creation with the empty name and
  one with a rejected proof revert, \<open>alice\<close> shares document 1 with \<open>bob\<close>, and \<open>bob\<close>
  creates document 2.\<close>

definition demo_history :: "(env \<times> call) list" where
  "demo_history =
     [(at alice 100 7, CreateDocument ''Genesis'' [] 5 [1]),
      (at bob 110 7, CreateDocument [] ''x'' 6 [1]),
      (at alice 120 8, GrantAccess 1 bob),
      (at bob 130 8, CreateDocument ''B'' ''payload'' 6 []),
      (at bob 140 9, CreateDocument ''B'' ''payload'' 6 [2])]"

definition demo_state :: vault where
  "demo_state = \<lparr>nextId = 3,
     documents = (\<lambda>_. zeroDocument)
       (1 := \<lparr>owner = alice, name = ''Genesis'', encryptedBody = [], accessKey = 5,
               createdAt = 100, updatedAt = 100, lastEditorBlock = 7\<rparr>,
        2 := \<lparr>owner = bob, name = ''B'', encryptedBody = ''payload'', accessKey = 6,
               createdAt = 140, updatedAt = 140, lastEditorBlock = 9\<rparr>),
     ownedDocuments = (\<lambda>_. [])(alice := [1], bob := [2]),
     sharedDocuments = (\<lambda>_. [])(bob := [1]),
     isSharedWith = (\<lambda>_ _. False)(1 := (\<lambda>_. False)(bob := True)),
     events = [DocumentCreated 1 alice ''Genesis'', AccessGranted 1 bob,
               DocumentCreated 2 bob ''B''],
     acl = (\<lambda>_ _. False)
       (5 := (\<lambda>_. False)(4096 := True, alice := True, bob := True),
        6 := (\<lambda>_. False)(4096 := True, bob := True)),
     aclCalls = [(5, 4096), (5, alice), (5, bob), (6, 4096), (6, bob)],
     thisAddress = 4096\<rparr>"

text \<open>Later transactions on that state, and the states after single calls.\<close>

definition demo_later :: "(env \<times> call) list" where
  "demo_later =
     [(at bob 200 10, UpdateDocumentBody 1 ''c1''),
      (at bob 210 10, GrantAccess 1 carol),
      (at carol 220 11, CreateDocument ''C'' [] 7 [3])]"

definition demo_updated1 :: vault where
  "demo_updated1 =
     fst (transact demo_import (at alice 200 8, UpdateDocumentBody 1 ''c1'') demo_vault)"

definition demo_updated2 :: vault where
  "demo_updated2 =
     fst (transact demo_import (at alice 200 8, UpdateDocumentBody 1 ''c2'') demo_updated1)"

definition demo_updated3 :: vault where
  "demo_updated3 =
     fst (transact demo_import (at alice 212 9, UpdateDocumentBody 1 ''c2'') demo_updated1)"

definition demo_updated :: vault where
  "demo_updated =
     fst (transact demo_import (at bob 200 10, UpdateDocumentBody 1 ''c1'') demo_state)"

definition demo_granted1 :: vault where
  "demo_granted1 =
     fst (transact demo_import (at alice 300 12, GrantAccess 1 carol) demo_state)"

definition demo_granted2 :: vault where
  "demo_granted2 =
     fst (transact demo_import (at bob 310 12, GrantAccess 1 carol) demo_granted1)"

text \<open>Stand-ins for the primitives of \<^verbatim>\<open>crypto.subtle\<close>, which cannot be computed here: a
  cipher that reverses the message and appends a 16-byte tag made of the first key byte,
  and its decryption, which rejects every input that does not end in the tag of the key.\<close>

definition toy_tag :: "bytes \<Rightarrow> bytes" where
  "toy_tag key = replicate 16 (case key of [] \<Rightarrow> 0 | b # _ \<Rightarrow> b)"

definition toy_decrypt :: "bytes \<Rightarrow> bytes \<Rightarrow> bytes \<Rightarrow> js_error + bytes" where
  "toy_decrypt key iv c =
     (if 16 \<le> length c \<and> drop (length c - 16) c = toy_tag key
      then Inr (rev (take (length c - 16) c)) else Inl OperationError)"



text \<open>A secret (\<^verbatim>\<open>0xAb\<close>), a body (\<^verbatim>\<open>hi\<close>) and two nonces.\<close>

definition demo_secret :: jsstring where
  "demo_secret = [48, 120, 65, 98]"

definition demo_body :: jsstring where
  "demo_body = [104, 105]"

definition demo_iv1 :: bytes where
  "demo_iv1 = [0, 1, 2, 3, 4, 5, 6, 7, 8, 9, 10, 11]"

definition demo_iv2 :: bytes where
  "demo_iv2 = [12, 1, 2, 3, 4, 5, 6, 7, 8, 9, 10, 11]"

definition demo_key :: bytes where
  "demo_key = [48, 120, 97, 98] @ replicate 28 0"

text \<open>The concrete platform: the standard codec and base64, lower-casing of the ASCII
  capitals, a digest that pads or cuts to 32 bytes, the import of 16, 24 or 32 raw bytes,
  and the stand-in cipher. Payloads it produces for \<^verbatim>\<open>hi\<close>, for a lone surrogate and for
  a string with a leading U+FEFF; a text with one, two, three and four byte encodings; a
  payload cut to eight characters.\<close>

definition web :: "bytes platform" where
  "web = \<lparr>textEncode = TextEncoder_encode, textDecode = TextDecoder_decode,
     toLowerCase = map (\<lambda>c. if 65 \<le> c \<and> c \<le> 90 then c + 32 else c),
     btoa = btoa_std, atob = atob_std,
     digestSHA256 = (\<lambda>bs. take 32 (bs @ replicate 32 0)),
     importKey = (\<lambda>raw. if length raw \<in> {16, 24, 32} then Inr raw else Inl DataError),
     encryptAESGCM = (\<lambda>key iv m. Inr (rev m @ toy_tag key)),
     decryptAESGCM = toy_decrypt\<rparr>"

definition demo_payload :: jsstring where
  "demo_payload =
     [65, 65, 69, 67, 65, 119, 81, 70, 66, 103, 99, 73, 67, 81, 111, 76, 97,
      87, 103, 119, 77, 68, 65, 119, 77, 68, 65, 119, 77, 68, 65, 119, 77,
      68, 65, 119, 77, 68, 65, 119]"

definition demo_payload_surrogate :: jsstring where
  "demo_payload_surrogate =
     [65, 65, 69, 67, 65, 119, 81, 70, 66, 103, 99, 73, 67, 81, 111, 76, 118,
      98, 47, 118, 77, 68, 65, 119, 77, 68, 65, 119, 77, 68, 65, 119, 77,
      68, 65, 119, 77, 68, 65, 119, 77, 65, 61, 61]"

definition demo_payload_bom :: jsstring where
  "demo_payload_bom =
     [65, 65, 69, 67, 65, 119, 81, 70, 66, 103, 99, 73, 67, 81, 111, 76, 97,
      76, 43, 55, 55, 122, 65, 119, 77, 68, 65, 119, 77, 68, 65, 119, 77,
      68, 65, 119, 77, 68, 65, 119, 77, 68, 65, 61]"

definition demo_text :: jsstring where
  "demo_text = [104, 233, 8364, 55357, 56832]"

definition demo_short :: jsstring where
  "demo_short = [65, 65, 69, 67, 65, 119, 81, 70]"

text \<open>Document 1 updated in the block that created it.\<close>

definition demo_same_block :: vault where
  "demo_same_block =
     fst (transact demo_import (at alice 100 7, UpdateDocumentBody 1 ''c0'') demo_vault)"

section \<open>Properties of the registry\<close>

lemmas vault_defs = createDocument_def updateDocumentBody_def grantAccess_def
  priv_getDocument_def priv_requireAccess_def FHE_allow_def FHE_allowThis_def
  FHE_isSenderAllowed_def emit_def

lemma demo_vault_eq:
  "demo_vault = \<lparr>nextId = 2,
     documents = (\<lambda>_. zeroDocument)(1 := \<lparr>owner = alice, name = ''Genesis'',
        encryptedBody = [], accessKey = 5, createdAt = 100, updatedAt = 100,
        lastEditorBlock = 7\<rparr>),
     ownedDocuments = (\<lambda>_. [])(alice := [1]),
     sharedDocuments = (\<lambda>_. []), isSharedWith = (\<lambda>_ _. False),
     events = [DocumentCreated 1 alice ''Genesis''],
     acl = (\<lambda>_ _. False)(5 := (\<lambda>_. False)(4096 := True, alice := True)),
     aclCalls = [(5, 4096), (5, alice)], thisAddress = 4096\<rparr>"
  by (simp add: demo_vault_def demo_txs_def deploy_def at_def demo_import_def vault_defs
      uint256_max_def Let_def)

subsection \<open>What a successful call did, and the invariant\<close>

text \<open>Each state-changing function, when it returns, has made exactly the writes of its
  body; the three lemmas give the resulting state in closed form.\<close>

lemma create_Inr:
  assumes "createDocument fe e nm body k pf s = Inr (i, s')"
  shows "\<exists>h. fe k pf (msg_sender e) = Some h \<and> nm \<noteq> [] \<and> nextId s < uint256_max \<and> i = nextId s
    \<and> s' = s\<lparr>nextId := Suc (nextId s),
          documents := (documents s)(nextId s := \<lparr>owner = msg_sender e, name = nm,
             encryptedBody = body, accessKey = h, createdAt = block_timestamp e,
             updatedAt = block_timestamp e, lastEditorBlock = block_number e\<rparr>),
          ownedDocuments := (ownedDocuments s)(msg_sender e :=
             ownedDocuments s (msg_sender e) @ [nextId s]),
          acl := (acl s)(h := (acl s h)(thisAddress s := True, msg_sender e := True)),
          aclCalls := aclCalls s @ [(h, thisAddress s), (h, msg_sender e)],
          events := events s @ [DocumentCreated (nextId s) (msg_sender e) nm]\<rparr>"
  using assms
  by (auto simp: vault_defs Let_def split: if_splits option.splits)

lemma update_Inr:
  assumes "updateDocumentBody e i b s = Inr s'"
  shows "owner (documents s i) \<noteq> 0 \<and> acl s (accessKey (documents s i)) (msg_sender e)
    \<and> s' = s\<lparr>documents := (documents s)(i := (documents s i)
             \<lparr>encryptedBody := b, updatedAt := block_timestamp e,
              lastEditorBlock := block_number e\<rparr>),
          events := events s @ [DocumentUpdated i (msg_sender e) b]\<rparr>"
  using assms
  by (auto simp: vault_defs Let_def split: if_splits sum.splits)

lemma grant_Inr:
  assumes "grantAccess e i g s = Inr s'"
  shows "g \<noteq> 0 \<and> owner (documents s i) \<noteq> 0 \<and> acl s (accessKey (documents s i)) (msg_sender e)
    \<and> s' = s\<lparr>isSharedWith := (isSharedWith s)(i := (isSharedWith s i)(g := True)),
          sharedDocuments := (sharedDocuments s)(g :=
             (if isSharedWith s i g then sharedDocuments s g else sharedDocuments s g @ [i])),
          acl := (acl s)(accessKey (documents s i) :=
             (acl s (accessKey (documents s i)))(g := True)),
          aclCalls := aclCalls s @ [(accessKey (documents s i), g)],
          events := events s @ [AccessGranted i g]\<rparr>"
  using assms
  by (auto simp: vault_defs Let_def fun_upd_idem split: if_splits sum.splits)

lemma inv_deploy: "vault_inv (deploy this acl0)"
  by (simp add: vault_inv_def deploy_def zeroDocument_def)

lemma inv_create:
  assumes "vault_inv s" and "createDocument fe e nm body k pf s = Inr (i, s')"
  shows "vault_inv s'"
proof -
  from create_Inr [OF assms(2)] obtain h where
    s': "s' = s\<lparr>nextId := Suc (nextId s),
          documents := (documents s)(nextId s := \<lparr>owner = msg_sender e, name = nm,
             encryptedBody = body, accessKey = h, createdAt = block_timestamp e,
             updatedAt = block_timestamp e, lastEditorBlock = block_number e\<rparr>),
          ownedDocuments := (ownedDocuments s)(msg_sender e :=
             ownedDocuments s (msg_sender e) @ [nextId s]),
          acl := (acl s)(h := (acl s h)(thisAddress s := True, msg_sender e := True)),
          aclCalls := aclCalls s @ [(h, thisAddress s), (h, msg_sender e)],
          events := events s @ [DocumentCreated (nextId s) (msg_sender e) nm]\<rparr>"
    by blast
  from assms(1) have a: "1 \<le> nextId s"
    and b: "\<And>d. nextId s \<le> d \<Longrightarrow> owner (documents s d) = 0"
    and c: "\<And>d g. count_list (sharedDocuments s g) d = (if isSharedWith s d g then 1 else 0)"
    and d: "\<And>d. owner (documents s d) \<noteq> 0 \<Longrightarrow> d \<in> set (ownedDocuments s (owner (documents s d)))"
    by (simp_all add: vault_inv_def)
  have "1 \<le> nextId s'" using a by (simp add: s')
  moreover have "\<forall>d. nextId s' \<le> d \<longrightarrow> owner (documents s' d) = 0"
    using b by (simp add: s')
  moreover have "\<forall>d g. count_list (sharedDocuments s' g) d = (if isSharedWith s' d g then 1 else 0)"
    using c by (simp add: s')
  moreover have "\<forall>d. owner (documents s' d) \<noteq> 0 \<longrightarrow> d \<in> set (ownedDocuments s' (owner (documents s' d)))"
  proof (intro allI impI)
    fix d assume e: "owner (documents s' d) \<noteq> 0"
    show "d \<in> set (ownedDocuments s' (owner (documents s' d)))"
    proof (cases "d = nextId s")
      case True
      then show ?thesis by (simp add: s')
    next
      case False
      with e have "owner (documents s d) \<noteq> 0" by (simp add: s')
      from d [OF this] False show ?thesis by (auto simp: s')
    qed
  qed
  ultimately show ?thesis by (simp add: vault_inv_def)
qed

lemma inv_update:
  assumes "vault_inv s" and "updateDocumentBody e i b s = Inr s'"
  shows "vault_inv s'"
  using update_Inr [OF assms(2)] assms(1)
  by (auto simp: vault_inv_def)

lemma inv_grant:
  assumes "vault_inv s" and "grantAccess e i g s = Inr s'"
  shows "vault_inv s'"
  using grant_Inr [OF assms(2)] assms(1)
  by (auto simp: vault_inv_def)

lemma inv_transact: "vault_inv s \<Longrightarrow> vault_inv (fst (transact fe t s))"
proof (cases t)
  case (Pair e c)
  assume i: "vault_inv s"
  show ?thesis
  proof (cases c)
    case (CreateDocument nm body k pf)
    with Pair i show ?thesis
      by (auto split: sum.splits dest: inv_create)
  next
    case (UpdateDocumentBody d b)
    with Pair i show ?thesis
      by (auto split: sum.splits dest: inv_update)
  next
    case (GrantAccess d g)
    with Pair i show ?thesis
      by (auto split: sum.splits dest: inv_grant)
  qed
qed

lemma inv_run: "vault_inv s \<Longrightarrow> vault_inv (fst (run fe s ts))"
proof (induction ts arbitrary: s)
  case Nil
  then show ?case by simp
next
  case (Cons t ts)
  from Cons.prems have "vault_inv (fst (transact fe t s))" by (rule inv_transact)
  then have "vault_inv (fst (run fe (fst (transact fe t s)) ts))" by (rule Cons.IH)
  then show ?case by (simp add: Let_def split_beta)
qed

lemma inv_reached: "vault_inv (reached fe this acl0 txs)"
  unfolding reached_def by (rule inv_run [OF inv_deploy])

lemma update_ok:
  assumes "owner (documents s i) \<noteq> 0" and "acl s (accessKey (documents s i)) (msg_sender e)"
  shows "updateDocumentBody e i b s = Inr (s\<lparr>documents := (documents s)(i := (documents s i)
             \<lparr>encryptedBody := b, updatedAt := block_timestamp e,
              lastEditorBlock := block_number e\<rparr>),
          events := events s @ [DocumentUpdated i (msg_sender e) b]\<rparr>)"
  using assms by (simp add: vault_defs Let_def)

lemma grant_ok:
  assumes "g \<noteq> 0" and "owner (documents s i) \<noteq> 0"
    and "acl s (accessKey (documents s i)) (msg_sender e)"
  shows "grantAccess e i g s = Inr (s\<lparr>isSharedWith := (isSharedWith s)(i := (isSharedWith s i)(g := True)),
          sharedDocuments := (sharedDocuments s)(g :=
             (if isSharedWith s i g then sharedDocuments s g else sharedDocuments s g @ [i])),
          acl := (acl s)(accessKey (documents s i) :=
             (acl s (accessKey (documents s i)))(g := True)),
          aclCalls := aclCalls s @ [(accessKey (documents s i), g)],
          events := events s @ [AccessGranted i g]\<rparr>)"
  using assms by (simp add: vault_defs Let_def fun_upd_idem)

lemma createdIds_append: "createdIds (xs @ ys) = createdIds xs @ createdIds ys"
  by (induction xs rule: createdIds.induct) simp_all

lemma transact_ids:
  "createdIds [snd (transact fe t s)] = [nextId s ..< nextId (fst (transact fe t s))]
   \<and> nextId s \<le> nextId (fst (transact fe t s))"
proof (cases t)
  case (Pair e c)
  show ?thesis
  proof (cases c)
    case (CreateDocument nm body k pf)
    with Pair show ?thesis
      by (auto split: sum.splits dest!: create_Inr)
  next
    case (UpdateDocumentBody d b)
    with Pair show ?thesis
      by (auto split: sum.splits dest!: update_Inr)
  next
    case (GrantAccess d g)
    with Pair show ?thesis
      by (auto split: sum.splits dest!: grant_Inr)
  qed
qed

lemma run_ids:
  "createdIds (snd (run fe s ts)) = [nextId s ..< nextId (fst (run fe s ts))]
   \<and> nextId s \<le> nextId (fst (run fe s ts))"
proof (induction ts arbitrary: s)
  case Nil
  then show ?case by simp
next
  case (Cons t ts)
  let ?s1 = "fst (transact fe t s)"
  let ?s2 = "fst (run fe ?s1 ts)"
  have a: "createdIds [snd (transact fe t s)] = [nextId s ..< nextId ?s1]"
    and b: "nextId s \<le> nextId ?s1"
    using transact_ids [of fe t s] by simp_all
  have c: "createdIds (snd (run fe ?s1 ts)) = [nextId ?s1 ..< nextId ?s2]"
    and d: "nextId ?s1 \<le> nextId ?s2"
    using Cons.IH [of ?s1] by simp_all
  have "createdIds (snd (run fe s (t # ts)))
      = createdIds [snd (transact fe t s)] @ createdIds (snd (run fe ?s1 ts))"
    using createdIds_append [of "[snd (transact fe t s)]" "snd (run fe ?s1 ts)"]
    by (simp add: Let_def split_beta)
  also have "\<dots> = [nextId s ..< nextId ?s2]"
    using a b c d upt_add_eq_append [of "nextId s" "nextId ?s1" "nextId ?s2 - nextId ?s1"]
    by simp
  finally show ?case using b d by (simp add: Let_def split_beta)
qed

lemma transact_frame:
  assumes i: "vault_inv s" and ex: "owner (documents s d) \<noteq> 0"
  shows "owner (documents (fst (transact fe tx s)) d) = owner (documents s d)
    \<and> name (documents (fst (transact fe tx s)) d) = name (documents s d)
    \<and> accessKey (documents (fst (transact fe tx s)) d) = accessKey (documents s d)
    \<and> createdAt (documents (fst (transact fe tx s)) d) = createdAt (documents s d)
    \<and> ((\<forall>b. snd tx \<noteq> UpdateDocumentBody d b) \<longrightarrow>
          documents (fst (transact fe tx s)) d = documents s d)"
proof -
  from i ex have lt: "d \<noteq> nextId s"
    by (auto simp: vault_inv_def)
  obtain e c where tx: "tx = (e, c)" by (cases tx)
  show ?thesis
  proof (cases c)
    case (CreateDocument nm body k pf)
    with tx lt show ?thesis
      by (auto split: sum.splits dest!: create_Inr)
  next
    case (UpdateDocumentBody d' b)
    with tx show ?thesis
      by (auto split: sum.splits dest!: update_Inr)
  next
    case (GrantAccess d' g)
    with tx show ?thesis
      by (auto split: sum.splits dest!: grant_Inr)
  qed
qed

lemma run_append:
  "fst (run fe s (xs @ ys)) = fst (run fe (fst (run fe s xs)) ys)"
  by (induction xs arbitrary: s) (simp_all add: Let_def split_beta)

lemma reached_append:
  "reached fe this acl0 (txs @ later) = fst (run fe (reached fe this acl0 txs) later)"
  by (simp add: reached_def run_append)

lemma run_frame:
  assumes "vault_inv s" and "owner (documents s d) \<noteq> 0"
  shows "owner (documents (fst (run fe s ts)) d) = owner (documents s d)
    \<and> name (documents (fst (run fe s ts)) d) = name (documents s d)
    \<and> accessKey (documents (fst (run fe s ts)) d) = accessKey (documents s d)
    \<and> createdAt (documents (fst (run fe s ts)) d) = createdAt (documents s d)"
  using assms
proof (induction ts arbitrary: s)
  case Nil
  then show ?case by simp
next
  case (Cons t ts)
  let ?s1 = "fst (transact fe t s)"
  note f = transact_frame [OF Cons.prems, of fe t]
  have i1: "vault_inv ?s1" using Cons.prems(1) by (rule inv_transact)
  have e1: "owner (documents ?s1 d) \<noteq> 0" using f Cons.prems(2) by simp
  have r: "fst (run fe s (t # ts)) = fst (run fe ?s1 ts)"
    by (simp add: Let_def split_beta)
  show ?case unfolding r using Cons.IH [OF i1 e1] f by simp
qed


lemma Suc_Suc_0: "Suc (Suc 0) = 2"
  by simp

lemma demo_run:
  "run demo_import (deploy 4096 (\<lambda>_ _. False)) demo_history
    = (demo_state, [Created 1, Reverted NameRequired, Done, Reverted ProofInvalid, Created 2])"
  by (simp add: demo_history_def demo_state_def deploy_def at_def demo_import_def vault_defs
      uint256_max_def Let_def zeroDocument_def alice_def bob_def Suc_Suc_0)

lemma demo_reached: "reached demo_import 4096 (\<lambda>_ _. False) demo_history = demo_state"
  by (simp add: reached_def demo_run)

lemmas demo_defs = at_def demo_import_def uint256_max_def Let_def zeroDocument_def
  alice_def bob_def carol_def Suc_Suc_0

lemma demo_updated_eq:
  "updateDocumentBody (at bob 200 10) 1 ''c1'' demo_state = Inr demo_updated"
  by (simp add: demo_updated_def demo_state_def vault_defs demo_defs)

lemma demo_granted1_eq:
  "grantAccess (at alice 300 12) 1 carol demo_state = Inr demo_granted1"
  by (simp add: demo_granted1_def demo_state_def vault_defs demo_defs)

lemma demo_granted2_eq:
  "grantAccess (at bob 310 12) 1 carol demo_granted1 = Inr demo_granted2"
  by (simp add: demo_granted2_def demo_granted1_def demo_state_def vault_defs demo_defs)

lemma demo_state_1: "documents demo_state 1 = \<lparr>owner = alice, name = ''Genesis'',
    encryptedBody = [], accessKey = 5, createdAt = 100, updatedAt = 100, lastEditorBlock = 7\<rparr>"
  by (simp add: demo_state_def)

lemma demo_state_2: "owner (documents demo_state 2) = bob"
  by (simp add: demo_state_def)

lemma demo_updated1_eq:
  "updateDocumentBody (at alice 200 8) 1 ''c1'' demo_vault = Inr demo_updated1"
  by (simp add: demo_updated1_def demo_vault_eq vault_defs demo_defs)

lemma demo_updated1_doc:
  "documents demo_updated1 1 = \<lparr>owner = alice, name = ''Genesis'', encryptedBody = ''c1'',
      accessKey = 5, createdAt = 100, updatedAt = 200, lastEditorBlock = 8\<rparr>"
  by (simp add: demo_updated1_def demo_vault_eq vault_defs demo_defs)

lemma demo_updated1_acl: "acl demo_updated1 5 alice"
  by (simp add: demo_updated1_def demo_vault_eq vault_defs demo_defs)

lemma demo_updated2_eq:
  "updateDocumentBody (at alice 200 8) 1 ''c2'' demo_updated1 = Inr demo_updated2"
  using demo_updated1_doc demo_updated1_acl
  by (simp add: demo_updated2_def vault_defs at_def alice_def)

lemma demo_updated3_eq:
  "updateDocumentBody (at alice 212 9) 1 ''c2'' demo_updated1 = Inr demo_updated3"
  using demo_updated1_doc demo_updated1_acl
  by (simp add: demo_updated3_def vault_defs at_def alice_def)

subsection \<open>Body updates\<close>

text \<open>
  Claim C1, as amended. \<open>updateDocumentBody\<close> reverts with \<open>NotFound\<close> when no document
  has the identifier; with \<open>Unauthorized\<close> when the document exists and the caller is not
  allowed on its access key; and otherwise returns: the stored body is the new body,
  \<open>updatedAt\<close> is set to the timestamp and \<open>lastEditorBlock\<close> to the block number of the
  call, the other fields are as before, and the event \<open>DocumentUpdated\<close> with the
  identifier, the caller and the new body is the last one emitted.
\<close>

theorem updateDocumentBody_spec:
  "(\<not> documentExists s documentId \<longrightarrow>
      updateDocumentBody e documentId newBody s = Inl NotFound)
   \<and> (documentExists s documentId
        \<and> \<not> FHE_isSenderAllowed e (accessKey (documents s documentId)) s \<longrightarrow>
      updateDocumentBody e documentId newBody s = Inl Unauthorized)
   \<and> (documentExists s documentId
        \<and> FHE_isSenderAllowed e (accessKey (documents s documentId)) s \<longrightarrow>
      (\<exists>s'. updateDocumentBody e documentId newBody s = Inr s'
         \<and> getDocument s' documentId = Inr ((documents s documentId)
              \<lparr>encryptedBody := newBody, updatedAt := block_timestamp e,
               lastEditorBlock := block_number e\<rparr>)
         \<and> events s' = events s @ [DocumentUpdated documentId (msg_sender e) newBody]))"
  by (simp add: updateDocumentBody_def priv_getDocument_def priv_requireAccess_def
      documentExists_def getDocument_def emit_def Let_def)

theorem updateDocumentBody_spec_witness:
  "updateDocumentBody (at alice 200 8) 2 ''c1'' demo_vault = Inl NotFound
   \<and> updateDocumentBody (at bob 200 8) 1 ''c1'' demo_vault = Inl Unauthorized
   \<and> (\<exists>s'. updateDocumentBody (at alice 200 8) 1 ''c1'' demo_vault = Inr s'
        \<and> getDocument s' 1 = Inr \<lparr>owner = alice, name = ''Genesis'', encryptedBody = ''c1'',
             accessKey = 5, createdAt = 100, updatedAt = 200, lastEditorBlock = 8\<rparr>
        \<and> events s' = [DocumentCreated 1 alice ''Genesis'', DocumentUpdated 1 alice ''c1''])"
  using updateDocumentBody_spec [of demo_vault 2 "at alice 200 8" "''c1''"]
    updateDocumentBody_spec [of demo_vault 1 "at bob 200 8" "''c1''"]
    updateDocumentBody_spec [of demo_vault 1 "at alice 200 8" "''c1''"]
  by (simp add: demo_vault_eq documentExists_def FHE_isSenderAllowed_def at_def
      zeroDocument_def alice_def bob_def)

text \<open>
  Claim C1 as stated fails where it says that a successful update advances \<open>updatedAt\<close>
  and \<open>lastEditorBlock\<close>: an update in the block that created the document returns and
  leaves both at the values they had.
\<close>

theorem update_same_block_counterexample:
  "updateDocumentBody (at alice 100 7) 1 ''c0'' demo_vault = Inr demo_same_block
   \<and> getDocument demo_vault 1 = Inr \<lparr>owner = alice, name = ''Genesis'',
        encryptedBody = [], accessKey = 5, createdAt = 100, updatedAt = 100,
        lastEditorBlock = 7\<rparr>
   \<and> getDocument demo_same_block 1 = Inr \<lparr>owner = alice, name = ''Genesis'',
        encryptedBody = ''c0'', accessKey = 5, createdAt = 100, updatedAt = 100,
        lastEditorBlock = 7\<rparr>
   \<and> \<not> updatedAt (documents demo_vault 1) < updatedAt (documents demo_same_block 1)
   \<and> \<not> lastEditorBlock (documents demo_vault 1) < lastEditorBlock (documents demo_same_block 1)"
  by (simp add: demo_same_block_def demo_vault_eq vault_defs demo_defs getDocument_def)

subsection \<open>Rejected calls\<close>

text \<open>
  Claim C6. In every state, for every identifier and caller, \<open>grantAccess\<close> with the zero
  address as grantee reverts with \<open>InvalidGrantee\<close>, and the transaction leaves the state
  as it was. The grantee is checked first, so this is the outcome also when the document
  does not exist or the caller is not allowed.
\<close>

theorem grantAccess_null_grantee:
  "grantAccess e documentId 0 s = Inl InvalidGrantee
   \<and> transact fromExternal (e, GrantAccess documentId 0) s = (s, Reverted InvalidGrantee)"
  by (simp add: grantAccess_def)

theorem grantAccess_null_grantee_witness:
  "grantAccess (at bob 200 8) 2 0 demo_vault = Inl InvalidGrantee
   \<and> transact demo_import (at bob 200 8, GrantAccess 2 0) demo_vault
       = (demo_vault, Reverted InvalidGrantee)
   \<and> \<not> documentExists demo_vault 2
   \<and> \<not> FHE_isSenderAllowed (at bob 200 8) (accessKey (documents demo_vault 2)) demo_vault"
  using grantAccess_null_grantee [of "at bob 200 8" 2 demo_vault demo_import]
  by (simp add: demo_vault_eq documentExists_def FHE_isSenderAllowed_def at_def
      zeroDocument_def alice_def bob_def)

text \<open>
  Claim C7. In every state and for every other argument, \<open>createDocument\<close> with the empty
  name reverts with \<open>NameRequired\<close>; the transaction leaves the whole state as it was, so
  \<open>totalDocuments\<close> returns the same value before and after.
\<close>

theorem createDocument_empty_name:
  "createDocument fromExternal e [] body k pf s = Inl NameRequired
   \<and> transact fromExternal (e, CreateDocument [] body k pf) s = (s, Reverted NameRequired)
   \<and> totalDocuments (fst (transact fromExternal (e, CreateDocument [] body k pf) s))
       = totalDocuments s"
  by (simp add: createDocument_def)

theorem createDocument_empty_name_witness:
  "createDocument demo_import (at bob 200 8) [] ''body'' 9 [1] demo_vault = Inl NameRequired
   \<and> transact demo_import (at bob 200 8, CreateDocument [] ''body'' 9 [1]) demo_vault
       = (demo_vault, Reverted NameRequired)
   \<and> totalDocuments
        (fst (transact demo_import (at bob 200 8, CreateDocument [] ''body'' 9 [1]) demo_vault))
       = Inr 1"
  using createDocument_empty_name [of demo_import "at bob 200 8" "''body''" 9 "[1]" demo_vault]
  by (simp add: demo_vault_eq totalDocuments_def)


subsection \<open>Identifiers\<close>

text \<open>
  Claim C3. Identifiers come from one counter that starts at 1. Whatever transactions a
  deployed vault has processed, reverted ones included, the identifiers returned by the
  successful creations are, in order, exactly 1, 2, ..., n: each is greater than all
  earlier ones, none occurs twice, 0 is not among them, there is no gap, and
  \<open>totalDocuments\<close> returns their number n.
\<close>

theorem document_ids_counter:
  "createdIds (snd (run fromExternal (deploy this acl0) txs))
     = [1 ..< Suc (length (createdIds (snd (run fromExternal (deploy this acl0) txs))))]
   \<and> sorted_wrt (<) (createdIds (snd (run fromExternal (deploy this acl0) txs)))
   \<and> distinct (createdIds (snd (run fromExternal (deploy this acl0) txs)))
   \<and> 0 \<notin> set (createdIds (snd (run fromExternal (deploy this acl0) txs)))
   \<and> totalDocuments (fst (run fromExternal (deploy this acl0) txs))
       = Inr (length (createdIds (snd (run fromExternal (deploy this acl0) txs))))"
proof -
  let ?s = "fst (run fromExternal (deploy this acl0) txs)"
  let ?ids = "createdIds (snd (run fromExternal (deploy this acl0) txs))"
  have ids: "?ids = [1 ..< nextId ?s]" and le: "1 \<le> nextId ?s"
    using run_ids [of fromExternal "deploy this acl0" txs] by (simp_all add: deploy_def)
  have len: "length ?ids = nextId ?s - 1" by (simp add: ids)
  have eq: "?ids = [1 ..< Suc (length ?ids)]" using le ids len by simp
  have "sorted_wrt (<) [1 ..< nextId ?s]" by (rule sorted_wrt_upt)
  then have so: "sorted_wrt (<) ?ids" by (simp add: ids)
  have di: "distinct ?ids" by (simp add: ids)
  have nz: "0 \<notin> set ?ids" by (simp add: ids)
  have "totalDocuments ?s = Inr (length ?ids)" using le len by (simp add: totalDocuments_def)
  with eq so di nz show ?thesis by blast
qed

theorem document_ids_counter_witness:
  "snd (run demo_import (deploy 4096 (\<lambda>_ _. False)) demo_history)
     = [Created 1, Reverted NameRequired, Done, Reverted ProofInvalid, Created 2]
   \<and> createdIds (snd (run demo_import (deploy 4096 (\<lambda>_ _. False)) demo_history)) = [1, 2]
   \<and> totalDocuments (fst (run demo_import (deploy 4096 (\<lambda>_ _. False)) demo_history)) = Inr 2"
  using document_ids_counter [of demo_import 4096 "\<lambda>_ _. False" demo_history]
  by (simp add: demo_run)

subsection \<open>Frame\<close>

text \<open>
  Claim C4. A document that exists keeps its \<open>owner\<close>, \<open>name\<close>, \<open>accessKey\<close> and
  \<open>createdAt\<close> through every later list of transactions; a transaction that is not an
  update of that document leaves its whole record as it was. A returning
  \<open>updateDocumentBody\<close> writes the body, \<open>updatedAt\<close> and \<open>lastEditorBlock\<close> of its
  target and appends an event, nothing else; a returning \<open>grantAccess\<close> leaves every
  record alone and changes at most the share index, the membership flags, the engine's
  permissions and the event log.
\<close>

theorem immutability_frame:
  "(documentExists (reached fromExternal this acl0 txs) d \<longrightarrow>
      owner (documents (reached fromExternal this acl0 (txs @ later)) d)
          = owner (documents (reached fromExternal this acl0 txs) d)
      \<and> name (documents (reached fromExternal this acl0 (txs @ later)) d)
          = name (documents (reached fromExternal this acl0 txs) d)
      \<and> accessKey (documents (reached fromExternal this acl0 (txs @ later)) d)
          = accessKey (documents (reached fromExternal this acl0 txs) d)
      \<and> createdAt (documents (reached fromExternal this acl0 (txs @ later)) d)
          = createdAt (documents (reached fromExternal this acl0 txs) d))
   \<and> (documentExists (reached fromExternal this acl0 txs) d \<and> (\<forall>b. snd tx \<noteq> UpdateDocumentBody d b) \<longrightarrow>
      documents (fst (transact fromExternal tx (reached fromExternal this acl0 txs))) d
        = documents (reached fromExternal this acl0 txs) d)
   \<and> (updateDocumentBody e documentId newBody s = Inr s' \<longrightarrow>
      documents s' = (documents s)(documentId := (documents s documentId)
         \<lparr>encryptedBody := newBody, updatedAt := block_timestamp e,
          lastEditorBlock := block_number e\<rparr>)
      \<and> s' = s\<lparr>documents := documents s', events := events s'\<rparr>)
   \<and> (grantAccess e documentId grantee s = Inr s' \<longrightarrow>
      documents s' = documents s
      \<and> s' = s\<lparr>sharedDocuments := sharedDocuments s', isSharedWith := isSharedWith s',
               events := events s', acl := acl s', aclCalls := aclCalls s'\<rparr>)"
proof -
  have a: "documentExists (reached fromExternal this acl0 txs) d \<longrightarrow>
      owner (documents (reached fromExternal this acl0 (txs @ later)) d)
          = owner (documents (reached fromExternal this acl0 txs) d)
      \<and> name (documents (reached fromExternal this acl0 (txs @ later)) d)
          = name (documents (reached fromExternal this acl0 txs) d)
      \<and> accessKey (documents (reached fromExternal this acl0 (txs @ later)) d)
          = accessKey (documents (reached fromExternal this acl0 txs) d)
      \<and> createdAt (documents (reached fromExternal this acl0 (txs @ later)) d)
          = createdAt (documents (reached fromExternal this acl0 txs) d)"
    using run_frame [OF inv_reached, of fromExternal this acl0 txs d fromExternal later]
    by (simp add: documentExists_def reached_append)
  have b: "documentExists (reached fromExternal this acl0 txs) d \<and> (\<forall>b. snd tx \<noteq> UpdateDocumentBody d b) \<longrightarrow>
      documents (fst (transact fromExternal tx (reached fromExternal this acl0 txs))) d
        = documents (reached fromExternal this acl0 txs) d"
    using transact_frame [where s = "reached fromExternal this acl0 txs" and d = d
        and tx = tx and fe = fromExternal, OF inv_reached]
    by (simp add: documentExists_def)
  have c: "updateDocumentBody e documentId newBody s = Inr s' \<longrightarrow>
      documents s' = (documents s)(documentId := (documents s documentId)
         \<lparr>encryptedBody := newBody, updatedAt := block_timestamp e,
          lastEditorBlock := block_number e\<rparr>)
      \<and> s' = s\<lparr>documents := documents s', events := events s'\<rparr>"
    by (auto dest!: update_Inr)
  have d: "grantAccess e documentId grantee s = Inr s' \<longrightarrow>
      documents s' = documents s
      \<and> s' = s\<lparr>sharedDocuments := sharedDocuments s', isSharedWith := isSharedWith s',
               events := events s', acl := acl s', aclCalls := aclCalls s'\<rparr>"
    by (auto dest!: grant_Inr)
  from a b c d show ?thesis by blast
qed

theorem immutability_frame_witness:
  "documentExists (reached demo_import 4096 (\<lambda>_ _. False) demo_history) 1
   \<and> owner (documents (reached demo_import 4096 (\<lambda>_ _. False) (demo_history @ demo_later)) 1)
       = alice
   \<and> name (documents (reached demo_import 4096 (\<lambda>_ _. False) (demo_history @ demo_later)) 1)
       = ''Genesis''
   \<and> accessKey (documents (reached demo_import 4096 (\<lambda>_ _. False) (demo_history @ demo_later)) 1)
       = 5
   \<and> createdAt (documents (reached demo_import 4096 (\<lambda>_ _. False) (demo_history @ demo_later)) 1)
       = 100
   \<and> documentExists (reached demo_import 4096 (\<lambda>_ _. False) demo_history) 2
   \<and> documents (fst (transact demo_import (at bob 200 10, UpdateDocumentBody 1 ''c1'')
        (reached demo_import 4096 (\<lambda>_ _. False) demo_history))) 2
       = documents (reached demo_import 4096 (\<lambda>_ _. False) demo_history) 2
   \<and> updateDocumentBody (at bob 200 10) 1 ''c1'' demo_state = Inr demo_updated
   \<and> documents demo_updated 1 = \<lparr>owner = alice, name = ''Genesis'', encryptedBody = ''c1'',
        accessKey = 5, createdAt = 100, updatedAt = 200, lastEditorBlock = 10\<rparr>
   \<and> demo_updated = demo_state\<lparr>documents := documents demo_updated,
        events := events demo_updated\<rparr>
   \<and> grantAccess (at alice 300 12) 1 carol demo_state = Inr demo_granted1
   \<and> documents demo_granted1 = documents demo_state"
proof -
  let ?r = "reached demo_import 4096 (\<lambda>_ _. False) demo_history"
  let ?tx = "(at bob 200 10, UpdateDocumentBody 1 ''c1'')"
  have e1: "documentExists ?r 1"
    by (simp add: demo_reached documentExists_def demo_state_1 [simplified] alice_def)
  have e2: "documentExists ?r 2"
    by (simp add: demo_reached documentExists_def demo_state_2 bob_def)
  have n2: "\<forall>b. snd ?tx \<noteq> UpdateDocumentBody 2 b"
    by simp
  note f1 = immutability_frame [of demo_import 4096 "\<lambda>_ _. False" demo_history 1 demo_later
      ?tx "at bob 200 10" 1 "''c1''" demo_state demo_updated carol]
  note f2 = immutability_frame [of demo_import 4096 "\<lambda>_ _. False" demo_history 2 demo_later
      ?tx "at alice 300 12" 1 "''c1''" demo_state demo_granted1 carol]
  from f1 e1 have a: "owner (documents (reached demo_import 4096 (\<lambda>_ _. False)
        (demo_history @ demo_later)) 1) = alice
     \<and> name (documents (reached demo_import 4096 (\<lambda>_ _. False)
        (demo_history @ demo_later)) 1) = ''Genesis''
     \<and> accessKey (documents (reached demo_import 4096 (\<lambda>_ _. False)
        (demo_history @ demo_later)) 1) = 5
     \<and> createdAt (documents (reached demo_import 4096 (\<lambda>_ _. False)
        (demo_history @ demo_later)) 1) = 100"
    using demo_state_1 by (simp add: demo_reached)
  from f2 e2 n2 have b: "documents (fst (transact demo_import ?tx ?r)) 2 = documents ?r 2"
    by blast
  note u = f1 [THEN conjunct2, THEN conjunct2, THEN conjunct1, rule_format,
      OF demo_updated_eq]
  have "documents demo_updated 1 = \<lparr>owner = alice,
        name = ''Genesis'', encryptedBody = ''c1'',
        accessKey = 5, createdAt = 100, updatedAt = 200, lastEditorBlock = 10\<rparr>"
    unfolding u [THEN conjunct1] using demo_state_1 by (simp add: at_def)
  with u have c: "documents demo_updated 1 = \<lparr>owner = alice,
        name = ''Genesis'', encryptedBody = ''c1'',
        accessKey = 5, createdAt = 100, updatedAt = 200, lastEditorBlock = 10\<rparr>
     \<and> demo_updated = demo_state\<lparr>documents := documents demo_updated,
        events := events demo_updated\<rparr>"
    by blast
  from f2 demo_granted1_eq have d: "documents demo_granted1 = documents demo_state"
    by blast
  from e1 a e2 b demo_updated_eq c demo_granted1_eq d show ?thesis
    by blast
qed

subsection \<open>Sharing\<close>

lemma grant_twice_returns:
  assumes "grantAccess e1 documentId p (reached fromExternal this acl0 txs) = Inr s1"
    and "grantAccess e2 documentId p s1 = Inr s2"
  shows "count_list (getSharedDocumentIds s1 p) documentId = 1
    \<and> count_list (getSharedDocumentIds s2 p) documentId = 1
    \<and> getSharedDocumentIds s2 p = getSharedDocumentIds s1 p
    \<and> aclCalls s1 = aclCalls (reached fromExternal this acl0 txs)
         @ [(accessKey (documents (reached fromExternal this acl0 txs) documentId), p)]
    \<and> aclCalls s2 = aclCalls s1
         @ [(accessKey (documents (reached fromExternal this acl0 txs) documentId), p)]
    \<and> acl s1 (accessKey (documents (reached fromExternal this acl0 txs) documentId)) p
    \<and> acl s2 (accessKey (documents (reached fromExternal this acl0 txs) documentId)) p"
proof -
  let ?s = "reached fromExternal this acl0 txs"
  have "vault_inv ?s" by (rule inv_reached)
  then have c: "\<And>d g. count_list (sharedDocuments ?s g) d = (if isSharedWith ?s d g then 1 else 0)"
    by (simp add: vault_inv_def)
  note g1 = grant_Inr [OF assms(1)]
  note g2 = grant_Inr [OF assms(2)]
  from g1 have s1: "count_list (sharedDocuments s1 p) documentId = 1"
    and m1: "isSharedWith s1 documentId p"
    and d1: "documents s1 = documents ?s"
    and a1: "aclCalls s1 = aclCalls ?s @ [(accessKey (documents ?s documentId), p)]"
    and p1: "acl s1 (accessKey (documents ?s documentId)) p"
    using c by auto
  from g2 m1 d1 have s2: "sharedDocuments s2 p = sharedDocuments s1 p"
    and a2: "aclCalls s2 = aclCalls s1 @ [(accessKey (documents ?s documentId), p)]"
    and p2: "acl s2 (accessKey (documents ?s documentId)) p"
    by auto
  from s1 s2 a1 a2 p1 p2 show ?thesis
    by (simp add: getSharedDocumentIds_def)
qed

text \<open>
  Claim C5. In a state a deployed vault can reach, for an existing document, a non-zero
  grantee and callers allowed on the document's access key, two calls of \<open>grantAccess\<close>
  for the same document and grantee both return and leave the document exactly once in
  the grantee's shared list: the second call finds the membership flag set and appends
  nothing. Each of the two calls asks the engine for the grant on the access key.
\<close>

theorem grantAccess_idempotent:
  assumes "s = reached fromExternal this acl0 txs"
    and "documentExists s documentId"
    and "p \<noteq> 0"
    and "FHE_isSenderAllowed e1 (accessKey (documents s documentId)) s"
    and "FHE_isSenderAllowed e2 (accessKey (documents s documentId)) s"
  shows "\<exists>s1 s2. grantAccess e1 documentId p s = Inr s1
    \<and> grantAccess e2 documentId p s1 = Inr s2
    \<and> count_list (getSharedDocumentIds s1 p) documentId = 1
    \<and> count_list (getSharedDocumentIds s2 p) documentId = 1
    \<and> getSharedDocumentIds s2 p = getSharedDocumentIds s1 p
    \<and> aclCalls s1 = aclCalls s @ [(accessKey (documents s documentId), p)]
    \<and> aclCalls s2 = aclCalls s @ [(accessKey (documents s documentId), p),
                                    (accessKey (documents s documentId), p)]
    \<and> acl s2 (accessKey (documents s documentId)) p"
proof -
  from assms(2) have ex: "owner (documents s documentId) \<noteq> 0"
    by (simp add: documentExists_def)
  from assms(4) have a1: "acl s (accessKey (documents s documentId)) (msg_sender e1)"
    by (simp add: FHE_isSenderAllowed_def)
  from assms(5) have a2: "acl s (accessKey (documents s documentId)) (msg_sender e2)"
    by (simp add: FHE_isSenderAllowed_def)
  let ?s1 = "s\<lparr>isSharedWith := (isSharedWith s)(documentId := (isSharedWith s documentId)(p := True)),
          sharedDocuments := (sharedDocuments s)(p :=
             (if isSharedWith s documentId p then sharedDocuments s p
              else sharedDocuments s p @ [documentId])),
          acl := (acl s)(accessKey (documents s documentId) :=
             (acl s (accessKey (documents s documentId)))(p := True)),
          aclCalls := aclCalls s @ [(accessKey (documents s documentId), p)],
          events := events s @ [AccessGranted documentId p]\<rparr>"
  have r1: "grantAccess e1 documentId p s = Inr ?s1"
    by (rule grant_ok [OF assms(3) ex a1])
  have ex1: "owner (documents ?s1 documentId) \<noteq> 0" using ex by simp
  have a21: "acl ?s1 (accessKey (documents ?s1 documentId)) (msg_sender e2)"
    using a2 by simp
  from grant_ok [OF assms(3) ex1 a21] obtain s2 where
    r2: "grantAccess e2 documentId p ?s1 = Inr s2" by blast
  from r1 have r1': "grantAccess e1 documentId p (reached fromExternal this acl0 txs) = Inr ?s1"
    by (simp add: assms(1))
  note t = grant_twice_returns [OF r1' r2, folded assms(1)]
  from t have "aclCalls s2 = aclCalls s @ [(accessKey (documents s documentId), p),
                                    (accessKey (documents s documentId), p)]"
    by simp
  with r1 r2 t show ?thesis by blast
qed

theorem grantAccess_idempotent_witness:
  "demo_state = reached demo_import 4096 (\<lambda>_ _. False) demo_history
   \<and> documentExists demo_state 1
   \<and> carol \<noteq> 0
   \<and> FHE_isSenderAllowed (at alice 300 12) (accessKey (documents demo_state 1)) demo_state
   \<and> FHE_isSenderAllowed (at bob 310 12) (accessKey (documents demo_state 1)) demo_state
   \<and> grantAccess (at alice 300 12) 1 carol demo_state = Inr demo_granted1
   \<and> grantAccess (at bob 310 12) 1 carol demo_granted1 = Inr demo_granted2
   \<and> count_list (getSharedDocumentIds demo_granted2 carol) 1 = 1
   \<and> getSharedDocumentIds demo_granted1 carol = [1]
   \<and> getSharedDocumentIds demo_granted2 carol = [1]
   \<and> aclCalls demo_granted2
       = [(5, 4096), (5, alice), (5, bob), (6, 4096), (6, bob), (5, carol), (5, carol)]"
proof -
  have r: "demo_state = reached demo_import 4096 (\<lambda>_ _. False) demo_history"
    by (simp add: demo_reached)
  have ex: "documentExists demo_state 1"
    by (simp add: documentExists_def demo_state_1 [simplified] alice_def)
  have c: "carol \<noteq> 0" by (simp add: carol_def)
  have a1: "FHE_isSenderAllowed (at alice 300 12) (accessKey (documents demo_state 1)) demo_state"
    by (simp add: FHE_isSenderAllowed_def demo_state_def demo_defs)
  have a2: "FHE_isSenderAllowed (at bob 310 12) (accessKey (documents demo_state 1)) demo_state"
    by (simp add: FHE_isSenderAllowed_def demo_state_def demo_defs)
  from grantAccess_idempotent [OF r ex c a1 a2] obtain s1 s2 where
    g1: "grantAccess (at alice 300 12) 1 carol demo_state = Inr s1"
    and g2: "grantAccess (at bob 310 12) 1 carol s1 = Inr s2"
    and n: "count_list (getSharedDocumentIds s2 carol) 1 = 1"
    and e: "getSharedDocumentIds s2 carol = getSharedDocumentIds s1 carol"
    and l: "aclCalls s2 = aclCalls demo_state @ [(accessKey (documents demo_state 1), carol),
                                    (accessKey (documents demo_state 1), carol)]"
    by blast
  from g1 demo_granted1_eq have s1: "s1 = demo_granted1" by simp
  from g2 demo_granted2_eq have s2: "s2 = demo_granted2" by (simp add: s1)
  have sh: "getSharedDocumentIds demo_granted1 carol = [1]"
    by (simp add: demo_granted1_def demo_state_def vault_defs demo_defs
        getSharedDocumentIds_def)
  have k: "accessKey (documents demo_state 1) = 5"
    using demo_state_1 by simp
  have q: "aclCalls demo_state = [(5, 4096), (5, alice), (5, bob), (6, 4096), (6, bob)]"
    by (simp add: demo_state_def)
  have l': "aclCalls demo_granted2
       = [(5, 4096), (5, alice), (5, bob), (6, 4096), (6, bob), (5, carol), (5, carol)]"
    using l unfolding s2 k q by simp
  from n e sh have n': "count_list (getSharedDocumentIds demo_granted2 carol) 1 = 1"
    and e': "getSharedDocumentIds demo_granted2 carol = [1]"
    by (simp_all add: s1 s2)
  from r ex c a1 a2 demo_granted1_eq demo_granted2_eq n' sh e' l' show ?thesis
    by blast
qed

text \<open>
  Claim C10. Nothing after creation asks for the owner. In a state a deployed vault can
  reach, a caller allowed on the access key of an existing document can update its body
  and can grant access to any non-zero address; the grantee is then allowed too and can
  itself update and grant. The grantee may be the document's owner: the call returns and
  the identifier is then in the owner's owned list and in the owner's shared list (it is
  appended there when the membership flag was not yet set).
\<close>

theorem permission_suffices:
  assumes "s = reached fromExternal this acl0 txs"
    and "documentExists s documentId"
    and "FHE_isSenderAllowed e (accessKey (documents s documentId)) s"
  shows "(\<exists>s'. updateDocumentBody e documentId newBody s = Inr s'
            \<and> encryptedBody (documents s' documentId) = newBody)
    \<and> (grantee \<noteq> 0 \<longrightarrow>
         (\<exists>s'. grantAccess e documentId grantee s = Inr s' \<and> documentExists s' documentId
            \<and> (\<forall>e'. msg_sender e' = grantee \<longrightarrow>
                  FHE_isSenderAllowed e' (accessKey (documents s' documentId)) s'
                  \<and> (\<exists>s''. updateDocumentBody e' documentId newBody s' = Inr s'')
                  \<and> (\<forall>g'. g' \<noteq> 0 \<longrightarrow> (\<exists>s''. grantAccess e' documentId g' s' = Inr s'')))))
    \<and> (\<exists>s'. grantAccess e documentId (owner (documents s documentId)) s = Inr s'
          \<and> documentId \<in> set (getOwnedDocumentIds s' (owner (documents s documentId)))
          \<and> documentId \<in> set (getSharedDocumentIds s' (owner (documents s documentId)))
          \<and> (\<not> isSharedWith s documentId (owner (documents s documentId)) \<longrightarrow>
                getSharedDocumentIds s' (owner (documents s documentId))
                  = getSharedDocumentIds s (owner (documents s documentId)) @ [documentId]))"
proof -
  from assms(2) have ex: "owner (documents s documentId) \<noteq> 0"
    by (simp add: documentExists_def)
  from assms(3) have al: "acl s (accessKey (documents s documentId)) (msg_sender e)"
    by (simp add: FHE_isSenderAllowed_def)
  have "vault_inv s" unfolding assms(1) by (rule inv_reached)
  then have c: "\<And>d g. count_list (sharedDocuments s g) d = (if isSharedWith s d g then 1 else 0)"
    and ow: "documentId \<in> set (ownedDocuments s (owner (documents s documentId)))"
    using ex by (simp_all add: vault_inv_def)
  have p1: "\<exists>s'. updateDocumentBody e documentId newBody s = Inr s'
            \<and> encryptedBody (documents s' documentId) = newBody"
    by (simp add: update_ok [OF ex al])
  have p2: "grantee \<noteq> 0 \<longrightarrow>
         (\<exists>s'. grantAccess e documentId grantee s = Inr s' \<and> documentExists s' documentId
            \<and> (\<forall>e'. msg_sender e' = grantee \<longrightarrow>
                  FHE_isSenderAllowed e' (accessKey (documents s' documentId)) s'
                  \<and> (\<exists>s''. updateDocumentBody e' documentId newBody s' = Inr s'')
                  \<and> (\<forall>g'. g' \<noteq> 0 \<longrightarrow> (\<exists>s''. grantAccess e' documentId g' s' = Inr s''))))"
  proof
    assume g: "grantee \<noteq> 0"
    let ?s' = "s\<lparr>isSharedWith := (isSharedWith s)(documentId := (isSharedWith s documentId)(grantee := True)),
          sharedDocuments := (sharedDocuments s)(grantee :=
             (if isSharedWith s documentId grantee then sharedDocuments s grantee
              else sharedDocuments s grantee @ [documentId])),
          acl := (acl s)(accessKey (documents s documentId) :=
             (acl s (accessKey (documents s documentId)))(grantee := True)),
          aclCalls := aclCalls s @ [(accessKey (documents s documentId), grantee)],
          events := events s @ [AccessGranted documentId grantee]\<rparr>"
    have r: "grantAccess e documentId grantee s = Inr ?s'"
      by (rule grant_ok [OF g ex al])
    have ex': "owner (documents ?s' documentId) \<noteq> 0" using ex by simp
    have al': "\<And>e' :: env. msg_sender e' = grantee \<Longrightarrow>
        acl ?s' (accessKey (documents ?s' documentId)) (msg_sender e')"
      by simp
    have "\<forall>e'. msg_sender e' = grantee \<longrightarrow>
                  FHE_isSenderAllowed e' (accessKey (documents ?s' documentId)) ?s'
                  \<and> (\<exists>s''. updateDocumentBody e' documentId newBody ?s' = Inr s'')
                  \<and> (\<forall>g'. g' \<noteq> 0 \<longrightarrow> (\<exists>s''. grantAccess e' documentId g' ?s' = Inr s''))"
    proof (intro allI impI conjI)
      fix e' :: env assume m: "msg_sender e' = grantee"
      show "FHE_isSenderAllowed e' (accessKey (documents ?s' documentId)) ?s'"
        using m by (simp add: FHE_isSenderAllowed_def)
      show "\<exists>s''. updateDocumentBody e' documentId newBody ?s' = Inr s''"
        using update_ok [OF ex' al' [OF m]] by blast
    next
      fix e' :: env and g' :: address
      assume m: "msg_sender e' = grantee" and g': "g' \<noteq> 0"
      show "\<exists>s''. grantAccess e' documentId g' ?s' = Inr s''"
        using grant_ok [OF g' ex' al' [OF m]] by blast
    qed
    with r ex' show "\<exists>s'. grantAccess e documentId grantee s = Inr s' \<and> documentExists s' documentId
            \<and> (\<forall>e'. msg_sender e' = grantee \<longrightarrow>
                  FHE_isSenderAllowed e' (accessKey (documents s' documentId)) s'
                  \<and> (\<exists>s''. updateDocumentBody e' documentId newBody s' = Inr s'')
                  \<and> (\<forall>g'. g' \<noteq> 0 \<longrightarrow> (\<exists>s''. grantAccess e' documentId g' s' = Inr s'')))"
      unfolding documentExists_def by blast
  qed
  have p3: "\<exists>s'. grantAccess e documentId (owner (documents s documentId)) s = Inr s'
          \<and> documentId \<in> set (getOwnedDocumentIds s' (owner (documents s documentId)))
          \<and> documentId \<in> set (getSharedDocumentIds s' (owner (documents s documentId)))
          \<and> (\<not> isSharedWith s documentId (owner (documents s documentId)) \<longrightarrow>
                getSharedDocumentIds s' (owner (documents s documentId))
                  = getSharedDocumentIds s (owner (documents s documentId)) @ [documentId])"
  proof (cases "isSharedWith s documentId (owner (documents s documentId))")
    case True
    with c [of "owner (documents s documentId)" documentId]
    have "count_list (sharedDocuments s (owner (documents s documentId))) documentId \<noteq> 0"
      by simp
    then have "documentId \<in> set (sharedDocuments s (owner (documents s documentId)))"
      by (simp add: count_list_0_iff)
    with True ow show ?thesis
      by (simp add: grant_ok [OF ex ex al] getOwnedDocumentIds_def getSharedDocumentIds_def)
  next
    case False
    with ow show ?thesis
      by (simp add: grant_ok [OF ex ex al] getOwnedDocumentIds_def getSharedDocumentIds_def)
  qed
  from p1 p2 p3 show ?thesis by blast
qed

theorem permission_suffices_witness:
  "demo_state = reached demo_import 4096 (\<lambda>_ _. False) demo_history
   \<and> documentExists demo_state 1
   \<and> FHE_isSenderAllowed (at bob 200 10) (accessKey (documents demo_state 1)) demo_state
   \<and> owner (documents demo_state 1) \<noteq> msg_sender (at bob 200 10)
   \<and> (\<exists>s'. updateDocumentBody (at bob 200 10) 1 ''c1'' demo_state = Inr s'
         \<and> encryptedBody (documents s' 1) = ''c1'')
   \<and> (\<exists>s'. grantAccess (at bob 200 10) 1 carol demo_state = Inr s'
         \<and> FHE_isSenderAllowed (at carol 201 10) (accessKey (documents s' 1)) s'
         \<and> (\<exists>s''. updateDocumentBody (at carol 201 10) 1 ''c1'' s' = Inr s'')
         \<and> (\<exists>s''. grantAccess (at carol 201 10) 1 4242 s' = Inr s''))
   \<and> (\<exists>s'. grantAccess (at bob 200 10) 1 alice demo_state = Inr s'
         \<and> 1 \<in> set (getOwnedDocumentIds s' alice)
         \<and> 1 \<in> set (getSharedDocumentIds s' alice)
         \<and> getSharedDocumentIds s' alice = getSharedDocumentIds demo_state alice @ [1])"
proof -
  have r: "demo_state = reached demo_import 4096 (\<lambda>_ _. False) demo_history"
    by (simp add: demo_reached)
  have ex: "documentExists demo_state 1"
    by (simp add: documentExists_def demo_state_1 [simplified] alice_def)
  have al: "FHE_isSenderAllowed (at bob 200 10) (accessKey (documents demo_state 1)) demo_state"
    by (simp add: FHE_isSenderAllowed_def demo_state_def demo_defs)
  have no: "owner (documents demo_state 1) \<noteq> msg_sender (at bob 200 10)"
    by (simp add: demo_state_def demo_defs)
  have ow: "owner (documents demo_state 1) = alice"
    by (simp add: demo_state_def)
  have ns: "\<not> isSharedWith demo_state 1 alice"
    by (simp add: demo_state_def demo_defs)
  have c: "carol \<noteq> 0" by (simp add: carol_def)
  have m: "msg_sender (at carol 201 10) = carol" by (simp add: at_def)
  note t = permission_suffices [OF r ex al, of "''c1''" carol]
  from t have p1: "\<exists>s'. updateDocumentBody (at bob 200 10) 1 ''c1'' demo_state = Inr s'
         \<and> encryptedBody (documents s' 1) = ''c1''"
    by blast
  from t c obtain s' where g: "grantAccess (at bob 200 10) 1 carol demo_state = Inr s'"
    and q: "\<forall>e'. msg_sender e' = carol \<longrightarrow>
              FHE_isSenderAllowed e' (accessKey (documents s' 1)) s'
              \<and> (\<exists>s''. updateDocumentBody e' 1 ''c1'' s' = Inr s'')
              \<and> (\<forall>g'. g' \<noteq> 0 \<longrightarrow> (\<exists>s''. grantAccess e' 1 g' s' = Inr s''))"
    by blast
  from q m have q': "FHE_isSenderAllowed (at carol 201 10) (accessKey (documents s' 1)) s'
      \<and> (\<exists>s''. updateDocumentBody (at carol 201 10) 1 ''c1'' s' = Inr s'')
      \<and> (\<forall>g'. g' \<noteq> 0 \<longrightarrow> (\<exists>s''. grantAccess (at carol 201 10) 1 g' s' = Inr s''))"
    by blast
  have "(4242 :: address) \<noteq> 0" by simp
  with q' have "\<exists>s''. grantAccess (at carol 201 10) 1 4242 s' = Inr s''" by blast
  with g q' have p2: "\<exists>s'. grantAccess (at bob 200 10) 1 carol demo_state = Inr s'
         \<and> FHE_isSenderAllowed (at carol 201 10) (accessKey (documents s' 1)) s'
         \<and> (\<exists>s''. updateDocumentBody (at carol 201 10) 1 ''c1'' s' = Inr s'')
         \<and> (\<exists>s''. grantAccess (at carol 201 10) 1 4242 s' = Inr s'')"
    by blast
  from t ns have p3: "\<exists>s'. grantAccess (at bob 200 10) 1 alice demo_state = Inr s'
         \<and> 1 \<in> set (getOwnedDocumentIds s' alice)
         \<and> 1 \<in> set (getSharedDocumentIds s' alice)
         \<and> getSharedDocumentIds s' alice = getSharedDocumentIds demo_state alice @ [1]"
    unfolding ow by blast
  from r ex al no p1 p2 p3 show ?thesis by blast
qed

subsection \<open>Timestamps\<close>

text \<open>
  Claim C8, as amended. A returning \<open>updateDocumentBody\<close> stores the timestamp of its
  block in \<open>updatedAt\<close>. Across two successive returning calls on a document the value
  returned by \<open>getDocument\<close> therefore grows strictly exactly when the second call's
  block timestamp is strictly larger, and is the same when the two calls carry the same
  timestamp.
\<close>

theorem updatedAt_is_call_time:
  assumes "updateDocumentBody e1 documentId b1 s = Inr s1"
    and "updateDocumentBody e2 documentId b2 s1 = Inr s2"
  shows "\<exists>d1 d2. getDocument s1 documentId = Inr d1 \<and> getDocument s2 documentId = Inr d2
    \<and> updatedAt d1 = block_timestamp e1 \<and> updatedAt d2 = block_timestamp e2
    \<and> (updatedAt d1 < updatedAt d2 \<longleftrightarrow> block_timestamp e1 < block_timestamp e2)
    \<and> (updatedAt d1 = updatedAt d2 \<longleftrightarrow> block_timestamp e1 = block_timestamp e2)"
  using update_Inr [OF assms(1)] update_Inr [OF assms(2)]
  by (auto simp: getDocument_def priv_getDocument_def)

theorem updatedAt_is_call_time_witness:
  "updateDocumentBody (at alice 200 8) 1 ''c1'' demo_vault = Inr demo_updated1
   \<and> updateDocumentBody (at alice 212 9) 1 ''c2'' demo_updated1 = Inr demo_updated3
   \<and> (\<exists>d1 d2. getDocument demo_updated1 1 = Inr d1 \<and> getDocument demo_updated3 1 = Inr d2
        \<and> updatedAt d1 = 200 \<and> updatedAt d2 = 212 \<and> updatedAt d1 < updatedAt d2)"
proof -
  from updatedAt_is_call_time [OF demo_updated1_eq demo_updated3_eq]
  have "\<exists>d1 d2. getDocument demo_updated1 1 = Inr d1 \<and> getDocument demo_updated3 1 = Inr d2
        \<and> updatedAt d1 = 200 \<and> updatedAt d2 = 212 \<and> updatedAt d1 < updatedAt d2"
    by (auto simp: at_def)
  with demo_updated1_eq demo_updated3_eq show ?thesis by blast
qed

text \<open>
  Claim C8 as stated fails: two updates of document 1 in the same block (timestamp 200)
  both return, and \<open>getDocument\<close> gives \<open>updatedAt = 200\<close> after each of them.
\<close>

theorem updatedAt_strict_counterexample:
  "updateDocumentBody (at alice 200 8) 1 ''c1'' demo_vault = Inr demo_updated1
   \<and> updateDocumentBody (at alice 200 8) 1 ''c2'' demo_updated1 = Inr demo_updated2
   \<and> getDocument demo_updated1 1 = Inr \<lparr>owner = alice, name = ''Genesis'',
        encryptedBody = ''c1'', accessKey = 5, createdAt = 100, updatedAt = 200,
        lastEditorBlock = 8\<rparr>
   \<and> getDocument demo_updated2 1 = Inr \<lparr>owner = alice, name = ''Genesis'',
        encryptedBody = ''c2'', accessKey = 5, createdAt = 100, updatedAt = 200,
        lastEditorBlock = 8\<rparr>
   \<and> \<not> updatedAt (documents demo_updated1 1) < updatedAt (documents demo_updated2 1)"
proof -
  have d2: "documents demo_updated2 1 = \<lparr>owner = alice, name = ''Genesis'',
        encryptedBody = ''c2'', accessKey = 5, createdAt = 100, updatedAt = 200,
        lastEditorBlock = 8\<rparr>"
    by (simp add: demo_updated2_def demo_updated1_def demo_vault_eq vault_defs demo_defs)
  have g1: "getDocument demo_updated1 1 = Inr \<lparr>owner = alice, name = ''Genesis'',
        encryptedBody = ''c1'', accessKey = 5, createdAt = 100, updatedAt = 200,
        lastEditorBlock = 8\<rparr>"
    using demo_updated1_doc by (simp add: getDocument_def priv_getDocument_def alice_def)
  have g2: "getDocument demo_updated2 1 = Inr \<lparr>owner = alice, name = ''Genesis'',
        encryptedBody = ''c2'', accessKey = 5, createdAt = 100, updatedAt = 200,
        lastEditorBlock = 8\<rparr>"
    using d2 by (simp add: getDocument_def priv_getDocument_def alice_def)
  have "\<not> updatedAt (documents demo_updated1 1) < updatedAt (documents demo_updated2 1)"
    using demo_updated1_doc d2 by simp
  with demo_updated1_eq demo_updated2_eq g1 g2 show ?thesis by blast
qed


section \<open>Properties of the envelope\<close>

text \<open>Bytes survive the passage through the binary string of \<open>toBase64\<close> and
  \<open>fromBase64\<close>; the key depends on the secret through its lower-cased form only.\<close>

lemma byte_of_code_unit: "(ucast (ucast (b :: 8 word) :: 16 word) :: 8 word) = b"
  by (rule ucast_up_ucast_id) (simp add: is_up)

lemma bytes_of_binary: "map (\<lambda>c. (ucast (c :: 16 word) :: 8 word)) (map (\<lambda>b. (ucast (b :: 8 word) :: 16 word)) bs) = bs"
  by (induction bs) (simp_all add: byte_of_code_unit)

lemma binary_inj:
  assumes "map (\<lambda>b. (ucast (b :: 8 word) :: 16 word)) xs = map (\<lambda>b. (ucast b :: 16 word)) ys"
  shows "xs = ys"
proof -
  from assms have "map (\<lambda>c. (ucast (c :: 16 word) :: 8 word)) (map (\<lambda>b. (ucast (b :: 8 word) :: 16 word)) xs)
      = map (\<lambda>c. (ucast c :: 8 word)) (map (\<lambda>b. (ucast b :: 16 word)) ys)"
    by simp
  then show ?thesis by (simp only: bytes_of_binary)
qed

lemma deriveKey_normalized:
  "toLowerCase P k = toLowerCase P k' \<Longrightarrow> deriveKey P k = deriveKey P k'"
  by (simp add: deriveKey_def)

lemma demo_iv_lengths: "length demo_iv1 = 12" "length demo_iv2 = 12" "demo_iv1 \<noteq> demo_iv2"
  by (simp_all add: demo_iv1_def demo_iv2_def)

text \<open>The concrete platform \<open>web\<close>, evaluated on the payloads of the scenarios; its
  base64 never writes a space; the stand-in cipher accepts only what it produced.\<close>

lemma web_fields:
  "textEncode web = TextEncoder_encode" "textDecode web = TextDecoder_decode"
  "btoa web = btoa_std" "atob web = atob_std"
  "toLowerCase web = map (\<lambda>c. if 65 \<le> c \<and> c \<le> 90 then c + 32 else c)"
  "digestSHA256 web = (\<lambda>bs. take 32 (bs @ replicate 32 0))"
  "importKey web = (\<lambda>raw. if length raw \<in> {16, 24, 32} then Inr raw else Inl DataError)"
  "encryptAESGCM web = (\<lambda>key iv m. Inr (rev m @ toy_tag key))"
  "decryptAESGCM web = toy_decrypt"
  by (simp_all add: web_def)

lemma enc_hi: "TextEncoder_encode demo_body = [104, 105]"
  by (simp add: TextEncoder_encode_def demo_body_def isHighSurrogate_def isLowSurrogate_def
      utf8Bytes_def)

lemma enc_surrogate: "TextEncoder_encode [55296] = [239, 191, 189]"
  by (simp add: TextEncoder_encode_def isHighSurrogate_def isLowSurrogate_def utf8Bytes_def)

lemma enc_bom: "TextEncoder_encode [65279, 104] = [239, 187, 191, 104]"
  by (simp add: TextEncoder_encode_def isHighSurrogate_def isLowSurrogate_def utf8Bytes_def)

lemma dec_hi: "TextDecoder_decode [104, 105] = [104, 105]"
  by (simp add: TextDecoder_decode_def dropBOM_def utf16Units_def)

lemma dec_surrogate: "TextDecoder_decode [239, 191, 189] = [65533]"
  by (simp add: TextDecoder_decode_def dropBOM_def utf16Units_def)

lemma dec_bom: "TextDecoder_decode [239, 187, 191, 104] = [104]"
  by (simp add: TextDecoder_decode_def dropBOM_def utf16Units_def)

lemma web_key: "deriveKey web demo_secret = Inr demo_key"
  by (simp add: deriveKey_def web_fields demo_secret_def demo_key_def
      TextEncoder_encode_def isHighSurrogate_def isLowSurrogate_def utf8Bytes_def)


lemmas b64_enc_defs = btoa_std_def b64Char_def
lemmas b64_dec_defs = atob_std_def stripPadding_def isAsciiWhitespace_def b64Value_def Let_def

lemma toy_enc: "encryptAESGCM web key n m = Inr (rev m @ toy_tag key)"
  by (simp add: web_fields)

lemma replicate_16: "replicate 16 x = [x, x, x, x, x, x, x, x, x, x, x, x, x, x, x, x]"
  by (simp add: numeral_eq_Suc)

lemma demo_tag: "toy_tag demo_key = [48, 48, 48, 48, 48, 48, 48, 48, 48, 48, 48, 48, 48, 48, 48, 48]"
  by (simp add: toy_tag_def demo_key_def replicate_16)

lemmas web_enc_defs = encryptBodyWithKey_def web_key web_fields toy_enc demo_tag toBase64_def
  b64_enc_defs demo_iv1_def

lemma web_enc_body: "encryptBodyWithKey web demo_body demo_secret demo_iv1 = Inr demo_payload"
  by (simp add: web_enc_defs enc_hi demo_payload_def) (simp add: demo_body_def)

lemma web_enc_surrogate:
  "encryptBodyWithKey web [55296] demo_secret demo_iv1 = Inr demo_payload_surrogate"
  by (simp add: web_enc_defs enc_surrogate demo_payload_surrogate_def)

lemma web_enc_bom:
  "encryptBodyWithKey web [65279, 104] demo_secret demo_iv1 = Inr demo_payload_bom"
  by (simp add: web_enc_defs enc_bom demo_payload_bom_def)

lemma atob_spaced:
  "fromBase64 web (demo_payload @ [32])
     = Inr (demo_iv1 @ [105, 104]
         @ [48, 48, 48, 48, 48, 48, 48, 48, 48, 48, 48, 48, 48, 48, 48, 48])"
  by (simp add: fromBase64_def web_fields b64_dec_defs demo_payload_def demo_iv1_def)

lemma atob_surrogate:
  "fromBase64 web demo_payload_surrogate
     = Inr (demo_iv1 @ [189, 191, 239]
         @ [48, 48, 48, 48, 48, 48, 48, 48, 48, 48, 48, 48, 48, 48, 48, 48])"
  by (simp add: fromBase64_def web_fields b64_dec_defs demo_payload_surrogate_def demo_iv1_def)

lemma atob_bom:
  "fromBase64 web demo_payload_bom
     = Inr (demo_iv1 @ [104, 191, 187, 239]
         @ [48, 48, 48, 48, 48, 48, 48, 48, 48, 48, 48, 48, 48, 48, 48, 48])"
  by (simp add: fromBase64_def web_fields b64_dec_defs demo_payload_bom_def demo_iv1_def)

lemmas web_dec_defs = decryptBodyWithKey_def web_key web_fields demo_tag demo_iv1_def
  toy_decrypt_def Let_def

lemma web_dec_spaced: "decryptBodyWithKey web (demo_payload @ [32]) demo_secret = Inr demo_body"
  by (simp add: web_dec_defs atob_spaced dec_hi) (simp add: demo_body_def)

lemma web_dec_surrogate:
  "decryptBodyWithKey web demo_payload_surrogate demo_secret = Inr [65533]"
  by (simp add: web_dec_defs atob_surrogate dec_surrogate) (simp add: demo_payload_surrogate_def)

lemma web_dec_bom:
  "decryptBodyWithKey web demo_payload_bom demo_secret = Inr [104]"
  by (simp add: web_dec_defs atob_bom dec_bom) (simp add: demo_payload_bom_def)

lemma b64Char_range: "43 \<le> b64Char n \<and> b64Char n \<le> 122"
  unfolding b64Char_def by (auto split: if_splits)

lemma b64Encode_range: "x \<in> set (b64Encode ns) \<Longrightarrow> 43 \<le> x \<and> x \<le> 122"
proof (induction ns arbitrary: x rule: b64Encode.induct)
  case (1 a b c rest)
  then show ?case using b64Char_range by auto
next
  case (2 a b)
  then show ?case using b64Char_range by auto
next
  case (3 a)
  then show ?case using b64Char_range by auto
next
  case 4
  then show ?case by simp
qed

lemma btoa_std_no_space:
  assumes "btoa_std s = Inr t"
  shows "32 \<notin> set t"
proof
  assume "32 \<in> set t"
  moreover from assms have "t = map of_nat (b64Encode (map unat s))"
    by (simp add: btoa_std_def split: if_splits)
  ultimately obtain x where x: "x \<in> set (b64Encode (map unat s))"
    and e: "(of_nat x :: 16 word) = 32" by auto
  from b64Encode_range [OF x] have r: "43 \<le> x" "x \<le> 122" by simp_all
  then have "unat (of_nat x :: 16 word) = x"
    by (simp add: unat_of_nat)
  with e r show False by simp
qed

lemma web_encrypt_no_space:
  assumes "encryptBodyWithKey web p k iv = Inr t"
  shows "32 \<notin> set t"
proof (cases "p = []")
  case True
  with assms show ?thesis by (simp add: encryptBodyWithKey_def)
next
  case False
  with assms obtain bs where "btoa_std bs = Inr t"
    by (auto simp: encryptBodyWithKey_def toBase64_def web_fields
        split: sum.splits)
  then show ?thesis by (rule btoa_std_no_space)
qed

lemma web_never_spaced:
  "\<forall>p k iv. encryptBodyWithKey web p k iv \<noteq> Inr (demo_payload @ [32])"
proof (intro allI notI)
  fix p k iv assume "encryptBodyWithKey web p k iv = Inr (demo_payload @ [32])"
  from web_encrypt_no_space [OF this] show False by simp
qed

text \<open>The standard codec gives a well-formed string without a leading U+FEFF back; the
  standard \<^verbatim>\<open>atob\<close> inverts the standard \<^verbatim>\<open>btoa\<close>.\<close>

lemma decode_lead2:
  "194 \<le> b \<Longrightarrow> b \<le> 223 \<Longrightarrow>
     utf8Decode cp seen 0 lo hi (b # bs) = utf8Decode (b mod 32) 0 1 128 191 bs"
  by simp

lemma decode_lead3:
  "224 \<le> b \<Longrightarrow> b \<le> 239 \<Longrightarrow>
     utf8Decode cp seen 0 lo hi (b # bs)
       = utf8Decode (b mod 16) 0 2 (if b = 224 then 160 else 128)
           (if b = 237 then 159 else 191) bs"
  by simp

lemma decode_lead4:
  "240 \<le> b \<Longrightarrow> b \<le> 244 \<Longrightarrow>
     utf8Decode cp seen 0 lo hi (b # bs)
       = utf8Decode (b mod 8) 0 3 (if b = 240 then 144 else 128)
           (if b = 244 then 143 else 191) bs"
  by simp

lemma decode_more:
  "needed \<noteq> 0 \<Longrightarrow> lo \<le> b \<Longrightarrow> b \<le> hi \<Longrightarrow> seen + 1 \<noteq> needed \<Longrightarrow>
     utf8Decode cp seen needed lo hi (b # bs)
       = utf8Decode (cp * 64 + b mod 64) (seen + 1) needed 128 191 bs"
  by simp

lemma decode_last:
  "needed \<noteq> 0 \<Longrightarrow> lo \<le> b \<Longrightarrow> b \<le> hi \<Longrightarrow> seen + 1 = needed \<Longrightarrow>
     utf8Decode cp seen needed lo hi (b # bs)
       = (cp * 64 + b mod 64) # utf8Decode 0 0 0 128 191 bs"
  by simp


lemma decode_one:
  assumes "v < 128"
  shows "utf8Decode 0 0 0 128 191 (utf8Bytes v @ rest) = v # utf8Decode 0 0 0 128 191 rest"
  using assms by (simp add: utf8Bytes_def)

lemma cont_byte: "128 \<le> 128 + x mod 64 \<and> 128 + x mod 64 \<le> (191::nat)
    \<and> (128 + x mod 64) mod 64 = x mod 64"
proof -
  have "x mod 64 < 64" by simp
  then have "128 + x mod 64 \<le> 191" by arith
  moreover have "(128 + x mod 64) mod 64 = x mod 64"
    by (simp add: mod_add_eq [symmetric])
  ultimately show ?thesis by simp
qed

lemma decode_two:
  assumes "128 \<le> v" and "v < 2048"
  shows "utf8Decode 0 0 0 128 191 (utf8Bytes v @ rest) = v # utf8Decode 0 0 0 128 191 rest"
proof -
  let ?a = "192 + v div 64" and ?b = "128 + v mod 64"
  have u: "utf8Bytes v = [?a, ?b]" using assms by (simp add: utf8Bytes_def)
  have q: "2 \<le> v div 64" "v div 64 < 32" using assms by arith+
  have a: "194 \<le> ?a" "?a \<le> 223" using q by arith+
  have am: "?a mod 32 = v div 64" using q by (simp add: mod_add_eq [symmetric])
  note b = cont_byte [of v]
  have s1: "utf8Decode 0 0 0 128 191 (?a # ?b # rest)
      = utf8Decode (v div 64) 0 1 128 191 (?b # rest)"
    unfolding decode_lead2 [OF a] am by (rule refl)
  have s2: "utf8Decode (v div 64) 0 1 128 191 (?b # rest)
      = (v div 64 * 64 + v mod 64) # utf8Decode 0 0 0 128 191 rest"
    using decode_last [of 1 128 ?b 191 0 "v div 64" rest] b by simp
  have "v div 64 * 64 + v mod 64 = v" by simp
  with s1 s2 show ?thesis by (simp only: u append_Cons append_Nil)
qed


lemma sextets2: "(v::nat) div 4096 * 64 + (v div 64) mod 64 = v div 64"
proof -
  have "v div 4096 = v div 64 div 64"
    using div_mult2_eq [of v 64 64] by simp
  then show ?thesis by simp
qed

lemma sextets3: "(v::nat) div 262144 * 64 + (v div 4096) mod 64 = v div 4096"
proof -
  have "v div 262144 = v div 4096 div 64"
    using div_mult2_eq [of v 4096 64] by simp
  then show ?thesis by simp
qed

lemma second_of_three:
  assumes "2048 \<le> (v::nat)" and "v < 65536" and "\<not> (55296 \<le> v \<and> v \<le> 57343)"
  shows "(if 224 + v div 4096 = 224 then 160 else 128) \<le> 128 + (v div 64) mod 64"
    and "128 + (v div 64) mod 64 \<le> (if 224 + v div 4096 = 237 then 159 else (191::nat))"
proof -
  have m: "(v div 64) mod 64 < 64" by simp
  show "(if 224 + v div 4096 = 224 then 160 else 128) \<le> 128 + (v div 64) mod 64"
  proof (cases "v div 4096 = 0")
    case True
    then have "v < 4096" by arith
    with assms(1) have "32 \<le> v div 64" "v div 64 < 64" by arith+
    then show ?thesis using True by simp
  next
    case False
    then show ?thesis by simp
  qed
  show "128 + (v div 64) mod 64 \<le> (if 224 + v div 4096 = 237 then 159 else (191::nat))"
  proof (cases "v div 4096 = 13")
    case True
    then have "53248 \<le> v" "v < 57344" by arith+
    with assms(3) have "v < 55296" by arith
    with \<open>53248 \<le> v\<close> have "832 \<le> v div 64" "v div 64 < 864" by arith+
    then have "\<exists>r. v div 64 = 832 + r \<and> r < 32"
      by (intro exI [of _ "v div 64 - 832"]) simp
    then obtain r where r: "v div 64 = 832 + r" "r < 32" by blast
    have "(832 + r) mod 64 = r" using r(2) by (simp add: mod_add_eq [symmetric])
    with r have "(v div 64) mod 64 < 32" by simp
    then show ?thesis using True by simp
  next
    case False
    then show ?thesis using m by simp
  qed
qed



lemma decode_three:
  assumes "2048 \<le> v" and "v < 65536" and "\<not> (55296 \<le> v \<and> v \<le> 57343)"
  shows "utf8Decode 0 0 0 128 191 (utf8Bytes v @ rest) = v # utf8Decode 0 0 0 128 191 rest"
proof -
  let ?a = "224 + v div 4096" and ?b = "128 + (v div 64) mod 64" and ?c = "128 + v mod 64"
  let ?lo = "if ?a = 224 then 160 else (128::nat)" and ?hi = "if ?a = 237 then 159 else (191::nat)"
  have u: "utf8Bytes v = [?a, ?b, ?c]" using assms by (simp add: utf8Bytes_def)
  have q: "v div 4096 < 16" using assms(2) by arith
  have a: "224 \<le> ?a" "?a \<le> 239" using q by arith+
  have am: "?a mod 16 = v div 4096" using q by (simp add: mod_add_eq [symmetric])
  note b = second_of_three [OF assms]
  have bm: "?b mod 64 = (v div 64) mod 64" using cont_byte [of "v div 64"] by simp
  note c = cont_byte [of v]
  have s1: "utf8Decode 0 0 0 128 191 (?a # ?b # ?c # rest)
      = utf8Decode (v div 4096) 0 2 ?lo ?hi (?b # ?c # rest)"
    unfolding decode_lead3 [OF a] am by (rule refl)
  have "utf8Decode (v div 4096) 0 2 ?lo ?hi (?b # ?c # rest)
      = utf8Decode (v div 4096 * 64 + ?b mod 64) (0 + 1) 2 128 191 (?c # rest)"
    by (rule decode_more [OF _ b]) simp_all
  then have s2: "utf8Decode (v div 4096) 0 2 ?lo ?hi (?b # ?c # rest)
      = utf8Decode (v div 64) 1 2 128 191 (?c # rest)"
    unfolding bm sextets2 by simp
  have "utf8Decode (v div 64) 1 2 128 191 (?c # rest)
      = (v div 64 * 64 + ?c mod 64) # utf8Decode 0 0 0 128 191 rest"
    by (rule decode_last) (simp_all add: c)
  then have s3: "utf8Decode (v div 64) 1 2 128 191 (?c # rest)
      = v # utf8Decode 0 0 0 128 191 rest"
    by (simp add: c)
  from s1 s2 s3 show ?thesis by (simp only: u append_Cons append_Nil)
qed

lemma second_of_four:
  assumes "65536 \<le> (v::nat)" and "v < 1114112"
  shows "(if 240 + v div 262144 = 240 then 144 else 128) \<le> 128 + (v div 4096) mod 64"
    and "128 + (v div 4096) mod 64 \<le> (if 240 + v div 262144 = 244 then 143 else (191::nat))"
proof -
  have m: "(v div 4096) mod 64 < 64" by simp
  show "(if 240 + v div 262144 = 240 then 144 else 128) \<le> 128 + (v div 4096) mod 64"
  proof (cases "v div 262144 = 0")
    case True
    then have "v < 262144" by arith
    with assms(1) have "16 \<le> v div 4096" "v div 4096 < 64" by arith+
    then show ?thesis using True by simp
  next
    case False
    then show ?thesis by simp
  qed
  show "128 + (v div 4096) mod 64 \<le> (if 240 + v div 262144 = 244 then 143 else (191::nat))"
  proof (cases "v div 262144 = 4")
    case True
    then have "1048576 \<le> v" by arith
    then have "256 \<le> v div 4096" by arith
    moreover from assms(2) have "v div 4096 < 272" by arith
    ultimately have "\<exists>r. v div 4096 = 256 + r \<and> r < 16"
      by (intro exI [of _ "v div 4096 - 256"]) simp
    then obtain r where r: "v div 4096 = 256 + r" "r < 16" by blast
    have "(256 + r) mod 64 = r" using r(2) by (simp add: mod_add_eq [symmetric])
    with r have "(v div 4096) mod 64 < 16" by simp
    then show ?thesis using True by simp
  next
    case False
    then show ?thesis using m by simp
  qed
qed

lemma decode_four:
  assumes "65536 \<le> v" and "v < 1114112"
  shows "utf8Decode 0 0 0 128 191 (utf8Bytes v @ rest) = v # utf8Decode 0 0 0 128 191 rest"
proof -
  let ?a = "240 + v div 262144" and ?b = "128 + (v div 4096) mod 64"
    and ?c = "128 + (v div 64) mod 64" and ?d = "128 + v mod 64"
  let ?lo = "if ?a = 240 then 144 else (128::nat)" and ?hi = "if ?a = 244 then 143 else (191::nat)"
  have u: "utf8Bytes v = [?a, ?b, ?c, ?d]" using assms by (simp add: utf8Bytes_def)
  have q: "v div 262144 < 5" using assms(2) by arith
  have a: "240 \<le> ?a" "?a \<le> 244" using q by arith+
  have am: "?a mod 8 = v div 262144" using q by (simp add: mod_add_eq [symmetric])
  note b = second_of_four [OF assms]
  have bm: "?b mod 64 = (v div 4096) mod 64" using cont_byte [of "v div 4096"] by simp
  note c = cont_byte [of "v div 64"]
  have cm: "?c mod 64 = (v div 64) mod 64" using c by simp
  note d = cont_byte [of v]
  have s1: "utf8Decode 0 0 0 128 191 (?a # ?b # ?c # ?d # rest)
      = utf8Decode (v div 262144) 0 3 ?lo ?hi (?b # ?c # ?d # rest)"
    unfolding decode_lead4 [OF a] am by (rule refl)
  have "utf8Decode (v div 262144) 0 3 ?lo ?hi (?b # ?c # ?d # rest)
      = utf8Decode (v div 262144 * 64 + ?b mod 64) (0 + 1) 3 128 191 (?c # ?d # rest)"
    by (rule decode_more [OF _ b]) simp_all
  then have s2: "utf8Decode (v div 262144) 0 3 ?lo ?hi (?b # ?c # ?d # rest)
      = utf8Decode (v div 4096) 1 3 128 191 (?c # ?d # rest)"
    unfolding bm sextets3 by simp
  have "utf8Decode (v div 4096) 1 3 128 191 (?c # ?d # rest)
      = utf8Decode (v div 4096 * 64 + ?c mod 64) (1 + 1) 3 128 191 (?d # rest)"
    by (rule decode_more) (simp_all add: c)
  then have s3: "utf8Decode (v div 4096) 1 3 128 191 (?c # ?d # rest)
      = utf8Decode (v div 64) 2 3 128 191 (?d # rest)"
    unfolding cm sextets2 by simp
  have "utf8Decode (v div 64) 2 3 128 191 (?d # rest)
      = (v div 64 * 64 + ?d mod 64) # utf8Decode 0 0 0 128 191 rest"
    by (rule decode_last) (simp_all add: d)
  then have s4: "utf8Decode (v div 64) 2 3 128 191 (?d # rest)
      = v # utf8Decode 0 0 0 128 191 rest"
    by (simp add: d)
  from s1 s2 s3 s4 show ?thesis by (simp only: u append_Cons append_Nil)
qed

lemma decode_scalar:
  assumes "isScalar v"
  shows "utf8Decode 0 0 0 128 191 (utf8Bytes v @ rest) = v # utf8Decode 0 0 0 128 191 rest"
proof -
  from assms have r: "v < 1114112" and s: "\<not> (55296 \<le> v \<and> v \<le> 57343)"
    by (simp_all add: isScalar_def)
  consider "v < 128" | "128 \<le> v" "v < 2048" | "2048 \<le> v" "v < 65536" | "65536 \<le> v"
    by arith
  then show ?thesis
  proof cases
    case 1 then show ?thesis by (rule decode_one)
  next
    case 2 then show ?thesis by (rule decode_two)
  next
    case 3 then show ?thesis using s by (rule decode_three)
  next
    case 4 then show ?thesis using r by (rule decode_four)
  qed
qed

lemma decode_scalars:
  "list_all isScalar vs \<Longrightarrow> utf8Decode 0 0 0 128 191 (concat (map utf8Bytes vs)) = vs"
  by (induction vs) (simp_all add: decode_scalar)

lemma utf8Bytes_small:
  assumes "isScalar v"
  shows "list_all (\<lambda>b. b < 256) (utf8Bytes v)"
proof -
  from assms have r: "v < 1114112" by (simp add: isScalar_def)
  have m: "\<And>x::nat. 128 + x mod 64 < 256"
  proof -
    fix x :: nat
    have "x mod 64 < 64" by simp
    then show "128 + x mod 64 < 256" by arith
  qed
  consider "v < 128" | "128 \<le> v" "v < 2048" | "2048 \<le> v" "v < 65536" | "65536 \<le> v"
    by arith
  then show ?thesis
  proof cases
    case 1 then show ?thesis by (simp add: utf8Bytes_def)
  next
    case 2
    then have "v div 64 < 32" by arith
    then have "192 + v div 64 < 256" by arith
    with 2 m show ?thesis by (simp add: utf8Bytes_def)
  next
    case 3
    then have "v div 4096 < 16" by arith
    then have "224 + v div 4096 < 256" by arith
    with 3 m show ?thesis by (simp add: utf8Bytes_def)
  next
    case 4
    from r have "v div 262144 < 5" by arith
    then have "240 + v div 262144 < 256" by arith
    with 4 m show ?thesis by (simp add: utf8Bytes_def)
  qed
qed

lemma bytes_small:
  "list_all isScalar vs \<Longrightarrow> list_all (\<lambda>b. b < 256) (concat (map utf8Bytes vs))"
  by (induction vs) (simp_all add: utf8Bytes_small)

lemma unat_byte: "b < 256 \<Longrightarrow> unat (of_nat b :: 8 word) = b"
  by (simp add: unat_of_nat)

lemma bytes_back:
  "list_all (\<lambda>b. b < 256) bs \<Longrightarrow> map unat (map of_nat bs :: bytes) = bs"
  by (induction bs) (simp_all add: unat_byte)

lemma unit_bound: "unat (c :: 16 word) < 65536"
  using unsigned_less [of c, where ?'a = nat] by simp

lemma surrogate_pair:
  assumes "isHighSurrogate c" and "isLowSurrogate d"
  shows "isScalar (65536 + (unat c - 55296) * 1024 + (unat d - 56320))"
    and "utf16Units (65536 + (unat c - 55296) * 1024 + (unat d - 56320)) = [c, d]"
proof -
  let ?h = "unat c - 55296" and ?l = "unat d - 56320"
  let ?v = "65536 + ?h * 1024 + ?l"
  from assms have h: "?h < 1024" "unat c = 55296 + ?h"
    and l: "?l < 1024" "unat d = 56320 + ?l"
    by (auto simp: isHighSurrogate_def isLowSurrogate_def)
  from h(1) have "?h * 1024 \<le> 1023 * 1024" by simp
  with l(1) have b: "?h * 1024 + ?l < 1048576" by simp
  then show "isScalar ?v" by (simp add: isScalar_def)
  have d1: "(?h * 1024 + ?l) div 1024 = ?h" using l(1) by simp
  have d2: "(?h * 1024 + ?l) mod 1024 = ?l" using l(1) by simp
  have "?v - 65536 = ?h * 1024 + ?l" by simp
  then have "utf16Units ?v = [of_nat (55296 + ?h), of_nat (56320 + ?l)]"
    using d1 d2 by (simp add: utf16Units_def)
  also have "of_nat (55296 + ?h) = c" unfolding h(2) [symmetric] by simp
  also have "of_nat (56320 + ?l) = d" unfolding l(2) [symmetric] by simp
  finally show "utf16Units ?v = [c, d]" .
qed

lemma plain_unit:
  assumes "\<not> isHighSurrogate c" and "\<not> isLowSurrogate c"
  shows "isScalar (unat c)" and "utf16Units (unat c) = [c]"
proof -
  from assms unit_bound [of c] show "isScalar (unat c)"
    by (auto simp: isScalar_def isHighSurrogate_def isLowSurrogate_def)
  show "utf16Units (unat c) = [c]"
    using unit_bound [of c] by (simp add: utf16Units_def)
qed

lemma wellFormed_scalars:
  "wellFormed p \<Longrightarrow>
     list_all isScalar (scalarValues p) \<and> concat (map utf16Units (scalarValues p)) = p"
proof (induction p rule: scalarValues.induct)
  case 1
  then show ?case by simp
next
  case (2 c)
  then show ?case by (simp add: plain_unit)
next
  case (3 c d cs)
  show ?case
  proof (cases "isHighSurrogate c")
    case True
    with "3.prems" have l: "isLowSurrogate d" and w: "wellFormed cs" by simp_all
    from "3.IH"(1) True l w show ?thesis
      by (simp add: surrogate_pair)
  next
    case False
    with "3.prems" have n: "\<not> isLowSurrogate c" and w: "wellFormed (d # cs)" by simp_all
    from "3.IH"(3) False n w show ?thesis
      by (simp add: plain_unit)
  qed
qed

lemma scalars_head:
  assumes "wellFormed p" and "p = [] \<or> hd p \<noteq> 65279"
  shows "dropBOM (scalarValues p) = scalarValues p"
proof (cases p)
  case Nil
  then show ?thesis by (simp add: dropBOM_def)
next
  case (Cons c cs)
  with assms(2) have n: "c \<noteq> 65279" by simp
  have u: "unat c \<noteq> 65279"
  proof
    assume "unat c = 65279"
    then have "of_nat (unat c) = (of_nat 65279 :: 16 word)" by simp
    then show False using n by simp
  qed
  show ?thesis
  proof (cases cs)
    case Nil
    with Cons u show ?thesis by (simp add: dropBOM_def)
  next
    case (Cons d ds)
    with \<open>p = c # cs\<close> u show ?thesis by (simp add: dropBOM_def)
  qed
qed

lemma codec_round_trip:
  assumes "wellFormed p" and "p = [] \<or> hd p \<noteq> 65279"
  shows "TextDecoder_decode (TextEncoder_encode p) = p"
proof -
  note w = wellFormed_scalars [OF assms(1)]
  from w have s: "list_all isScalar (scalarValues p)" by simp
  have "map unat (TextEncoder_encode p) = concat (map utf8Bytes (scalarValues p))"
    unfolding TextEncoder_encode_def by (rule bytes_back [OF bytes_small [OF s]])
  then have "utf8Decode 0 0 0 128 191 (map unat (TextEncoder_encode p)) = scalarValues p"
    by (simp add: decode_scalars [OF s])
  then show ?thesis
    using w scalars_head [OF assms] by (simp add: TextDecoder_decode_def)
qed

lemma b64Char_not_pad: "b64Char n \<noteq> 61"
  unfolding b64Char_def by (auto split: if_splits)

lemma b64Encode_length: "length (b64Encode ns) mod 4 = 0"
  by (induction ns rule: b64Encode.induct) simp_all

lemma b64Encode_empty: "b64Encode ns = [] \<longleftrightarrow> ns = []"
  by (induction ns rule: b64Encode.induct) simp_all

lemma code_unit: "x \<le> 122 \<Longrightarrow> unat (of_nat x :: 16 word) = x"
  by (simp add: unat_of_nat)

lemma code_unit_eq: "x \<le> 122 \<Longrightarrow> (of_nat x :: 16 word) = 61 \<longleftrightarrow> x = 61"
proof
  assume a: "x \<le> 122" and "(of_nat x :: 16 word) = 61"
  then have "unat (of_nat x :: 16 word) = unat (61 :: 16 word)" by simp
  with a show "x = 61" by (simp add: code_unit)
next
  assume "x = 61" then show "(of_nat x :: 16 word) = 61" by simp
qed

lemma stripPadding_group:
  assumes "t \<noteq> []" and "length t mod 4 = 0"
  shows "stripPadding (x1 # x2 # x3 # x4 # t) = x1 # x2 # x3 # x4 # stripPadding t"
proof -
  let ?p = "[x1, x2, x3, x4]"
  let ?d = "?p @ t"
  from assms have "length t \<noteq> 0" by simp
  with assms(2) have len: "4 \<le> length t" by arith
  have bt: "butlast t \<noteq> []"
  proof
    assume "butlast t = []"
    then have "length (butlast t) = 0" by simp
    then have "length t - 1 = 0" by (simp only: length_butlast)
    with len show False by arith
  qed
  have l1: "last ?d = last t" using assms(1) by simp
  have b1: "butlast ?d = ?p @ butlast t" using assms(1) by (simp add: butlast_append)
  have l2: "last (butlast ?d) = last (butlast t)" unfolding b1 using bt by simp
  have b2: "butlast (butlast ?d) = ?p @ butlast (butlast t)"
    unfolding b1 using bt by (simp add: butlast_append)
  have m: "length ?d mod 4 = 0" using assms(2) by simp
  have sd: "stripPadding ?d =
      (if last t = 61 then (if last (butlast t) = 61 then ?p @ butlast (butlast t)
                            else ?p @ butlast t) else ?d)"
    unfolding stripPadding_def l1 l2 b1 b2 m using bt by simp
  have st: "stripPadding t =
      (if last t = 61 then (if last (butlast t) = 61 then butlast (butlast t)
                            else butlast t) else t)"
    unfolding stripPadding_def using assms bt by simp
  have "stripPadding ?d = ?p @ stripPadding t"
    unfolding sd st by simp
  then show ?thesis by simp
qed

lemma ar1: "(b::nat) < 256 \<Longrightarrow> ((a mod 4) * 16 + b div 16) div 16 = a mod 4"
proof -
  assume "b < 256"
  then have "b div 16 < 16" by arith
  then show ?thesis by simp
qed

lemma ar2: "(b::nat) < 256 \<Longrightarrow> ((a mod 4) * 16 + b div 16) mod 16 = b div 16"
proof -
  assume "b < 256"
  then have "b div 16 < 16" by arith
  then show ?thesis by simp
qed

lemma ar3: "(c::nat) < 256 \<Longrightarrow> ((b mod 16) * 4 + c div 64) div 4 = b mod 16"
proof -
  assume "c < 256"
  then have "c div 64 < 4" by arith
  then show ?thesis by simp
qed

lemma ar4: "(c::nat) < 256 \<Longrightarrow> ((b mod 16) * 4 + c div 64) mod 4 = c div 64"
proof -
  assume "c < 256"
  then have "c div 64 < 4" by arith
  then show ?thesis by simp
qed

lemma decode_sextets:
  "list_all (\<lambda>b. b < 256) ns \<Longrightarrow> b64Decode (sextets ns) = ns"
proof (induction ns rule: sextets.induct)
  case (1 a b c rest)
  then have b: "b < 256" and c: "c < 256" and r: "list_all (\<lambda>b. b < 256) rest" by simp_all
  have "a div 4 * 4 + ((a mod 4) * 16 + b div 16) div 16 = a"
    unfolding ar1 [OF b] by simp
  moreover have "((a mod 4) * 16 + b div 16) mod 16 * 16 + ((b mod 16) * 4 + c div 64) div 4 = b"
    unfolding ar2 [OF b] ar3 [OF c] by simp
  moreover have "((b mod 16) * 4 + c div 64) mod 4 * 64 + c mod 64 = c"
    unfolding ar4 [OF c] by simp
  ultimately show ?case using "1.IH" [OF r] by simp
next
  case (2 a b)
  then have b: "b < 256" by simp
  have "a div 4 * 4 + ((a mod 4) * 16 + b div 16) div 16 = a"
    unfolding ar1 [OF b] by simp
  moreover have "((a mod 4) * 16 + b div 16) mod 16 * 16 + ((b mod 16) * 4) div 4 = b"
    unfolding ar2 [OF b] by simp
  ultimately show ?case by simp
next
  case (3 a)
  have "a div 4 * 4 + ((a mod 4) * 16) div 16 = a" by simp
  then show ?case by simp
next
  case 4
  then show ?case by simp
qed

lemma sextets_small:
  "list_all (\<lambda>b. b < 256) ns \<Longrightarrow> list_all (\<lambda>n. n < 64) (sextets ns)"
proof (induction ns rule: sextets.induct)
  case (1 a b c rest)
  then have a: "a < 256" and b: "b < 256" and c: "c < 256"
    and r: "list_all (\<lambda>b. b < 256) rest" by simp_all
  from a have "a div 4 < 64" by arith
  moreover have "a mod 4 < 4" "b mod 16 < 16" by simp_all
  moreover from b have "b div 16 < 16" by arith
  moreover from c have "c div 64 < 4" by arith
  ultimately have "a div 4 < 64" "(a mod 4) * 16 + b div 16 < 64" "(b mod 16) * 4 + c div 64 < 64"
    by arith+
  then show ?case using "1.IH" [OF r] by simp
next
  case (2 a b)
  then have a: "a < 256" and b: "b < 256" by simp_all
  from a have "a div 4 < 64" by arith
  moreover have "a mod 4 < 4" "b mod 16 < 16" by simp_all
  moreover from b have "b div 16 < 16" by arith
  ultimately have "a div 4 < 64" "(a mod 4) * 16 + b div 16 < 64" "(b mod 16) * 4 < 64"
    by arith+
  then show ?case by simp
next
  case (3 a)
  then have a: "a < 256" by simp
  from a have "a div 4 < 64" by arith
  moreover have "a mod 4 < 4" by simp
  ultimately have "a div 4 < 64" "(a mod 4) * 16 < 64" by arith+
  then show ?case by simp
next
  case 4
  then show ?case by simp
qed

lemma sextets_length: "length (sextets ns) mod 4 \<noteq> 1"
  by (induction ns rule: sextets.induct) simp_all

lemma char_unit: "unat (of_nat (b64Char n) :: 16 word) = b64Char n"
  using b64Char_range [of n] by (simp add: code_unit)

lemma char_not_pad: "(of_nat (b64Char n) :: 16 word) \<noteq> 61"
  using b64Char_range [of n] b64Char_not_pad [of n] by (simp add: code_unit_eq)

lemma strip_encoded:
  "stripPadding (map of_nat (b64Encode ns)) = map of_nat (map b64Char (sextets ns))"
proof (induction ns rule: b64Encode.induct)
  case (1 a b c rest)
  show ?case
  proof (cases "rest = []")
    case True
    then show ?thesis by (simp add: stripPadding_def char_not_pad)
  next
    case False
    then have "map of_nat (b64Encode rest) \<noteq> ([] :: jsstring)"
      by (simp add: b64Encode_empty)
    moreover have "length (map of_nat (b64Encode rest) :: jsstring) mod 4 = 0"
      by (simp add: b64Encode_length)
    ultimately show ?thesis using "1.IH"
      by (simp add: stripPadding_group)
  qed
next
  case (2 a b)
  then show ?case by (simp add: stripPadding_def char_not_pad)
next
  case (3 a)
  then show ?case by (simp add: stripPadding_def char_not_pad)
next
  case 4
  then show ?case by (simp add: stripPadding_def)
qed

lemma encoded_no_whitespace:
  "filter (\<lambda>c. \<not> isAsciiWhitespace c) (map of_nat (b64Encode ns)) = map of_nat (b64Encode ns)"
proof -
  have "\<And>x. x \<in> set (b64Encode ns) \<Longrightarrow> \<not> isAsciiWhitespace (of_nat x)"
  proof -
    fix x assume "x \<in> set (b64Encode ns)"
    from b64Encode_range [OF this] have r: "43 \<le> x" "x \<le> 122" by simp_all
    then have "unat (of_nat x :: 16 word) = x" by (simp add: code_unit)
    with r show "\<not> isAsciiWhitespace (of_nat x)" by (simp add: isAsciiWhitespace_def)
  qed
  then show ?thesis by (simp add: filter_map o_def)
qed

lemma value_of_char: "n < 64 \<Longrightarrow> b64Value (of_nat (b64Char n)) = Some n"
  unfolding b64Value_def char_unit Let_def
  by (auto simp: b64Char_def)

lemma values_of_chars:
  "list_all (\<lambda>n. n < 64) ss \<Longrightarrow> those (map b64Value (map of_nat (map b64Char ss))) = Some ss"
  by (induction ss) (simp_all add: value_of_char)

lemma atob_btoa_std:
  assumes "list_all (\<lambda>b. b < 256) ns"
  shows "atob_std (map of_nat (b64Encode ns)) = Inr (map of_nat ns)"
proof -
  have l: "length (map of_nat (map b64Char (sextets ns)) :: jsstring) mod 4 \<noteq> 1"
    using sextets_length [of ns] by simp
  show ?thesis
    unfolding atob_std_def encoded_no_whitespace strip_encoded Let_def
    using l values_of_chars [OF sextets_small [OF assms]] decode_sextets [OF assms]
    by simp
qed

lemma web_base64:
  "\<forall>bs :: bytes. \<exists>t. btoa web (map ucast bs) = Inr t \<and> atob web t = Inr (map ucast bs)
     \<and> (bs \<noteq> [] \<longrightarrow> t \<noteq> [])"
proof
  fix bs :: bytes
  let ?s = "map ucast bs :: jsstring"
  let ?ns = "map unat ?s"
  have u: "\<And>b :: 8 word. unat (ucast b :: 16 word) = unat b"
  proof -
    fix b :: "8 word"
    have "unat b < 2 ^ 8" using unsigned_less [of b, where ?'a = nat] by simp
    also have "(2::nat) ^ 8 \<le> 2 ^ 16" by simp
    finally have "take_bit 16 (unat b) = unat b" by (rule take_bit_nat_eq_self)
    then show "unat (ucast b :: 16 word) = unat b"
      by (simp add: unsigned_ucast_eq)
  qed
  have s: "list_all (\<lambda>b. b < 256) ?ns"
  proof (induction bs)
    case Nil then show ?case by simp
  next
    case (Cons b bs)
    have "unat b < 256" using unsigned_less [of b, where ?'a = nat] by simp
    with Cons show ?case by (simp add: u)
  qed
  then have a: "list_all (\<lambda>c. unat c \<le> 255) ?s"
    by (induction bs) (auto simp: u)
  have bt: "btoa web ?s = Inr (map of_nat (b64Encode ?ns))"
    using a by (simp add: web_fields btoa_std_def)
  have rt: "map of_nat ?ns = ?s"
    by (induction bs) simp_all
  have at: "atob web (map of_nat (b64Encode ?ns)) = Inr ?s"
    using atob_btoa_std [OF s] by (simp add: web_fields rt)
  have ne: "bs \<noteq> [] \<longrightarrow> (map of_nat (b64Encode ?ns) :: jsstring) \<noteq> []"
    by (simp add: b64Encode_empty)
  from bt at ne show "\<exists>t. btoa web ?s = Inr t \<and> atob web t = Inr ?s \<and> (bs \<noteq> [] \<longrightarrow> t \<noteq> [])"
    by blast
qed

lemma web_aead:
  "\<forall>n m. \<exists>c. encryptAESGCM web demo_key n m = Inr c \<and> decryptAESGCM web demo_key n c = Inr m"
  by (simp add: web_fields toy_decrypt_def toy_tag_def)

lemma web_authentic:
  "\<forall>key n c m. decryptAESGCM web key n c = Inr m \<longrightarrow> encryptAESGCM web key n m = Inr c"
proof (intro allI impI)
  fix key n c m assume d: "decryptAESGCM web key n c = Inr m"
  then have l: "16 \<le> length c" and t: "drop (length c - 16) c = toy_tag key"
    and m: "m = rev (take (length c - 16) c)"
    by (auto simp: web_fields toy_decrypt_def split: if_splits)
  have "rev m @ toy_tag key = take (length c - 16) c @ drop (length c - 16) c"
    by (simp add: m t)
  then show "encryptAESGCM web key n m = Inr c"
    by (simp add: web_fields)
qed

lemma demo_text_ok: "wellFormed demo_text" "demo_text = [] \<or> hd demo_text \<noteq> 65279"
  "demo_text \<noteq> []"
  by (simp_all add: demo_text_def isHighSurrogate_def isLowSurrogate_def)

lemma atob_body:
  "fromBase64 web demo_payload
     = Inr (demo_iv1 @ [105, 104]
         @ [48, 48, 48, 48, 48, 48, 48, 48, 48, 48, 48, 48, 48, 48, 48, 48])"
  by (simp add: fromBase64_def web_fields b64_dec_defs demo_payload_def demo_iv1_def)

lemma web_dec_body: "decryptBodyWithKey web demo_payload demo_secret = Inr demo_body"
  by (simp add: web_dec_defs atob_body dec_hi) (simp add: demo_body_def demo_payload_def)

lemma atob_star: "fromBase64 web [42] = Inl InvalidCharacterError"
  by (simp add: fromBase64_def web_fields b64_dec_defs)

lemma atob_short: "fromBase64 web demo_short = Inr [0, 1, 2, 3, 4, 5]"
  by (simp add: fromBase64_def web_fields b64_dec_defs demo_short_def)

lemma web_other_key:
  "deriveKey web [49, 120, 65, 98] = Inr ([49, 120, 97, 98] @ replicate 28 0)"
  by (simp add: deriveKey_def web_fields
      TextEncoder_encode_def isHighSurrogate_def isLowSurrogate_def utf8Bytes_def)

text \<open>The round trip on any platform, for a plaintext its codec gives back.\<close>

lemma round_trip_generic:
  assumes b64: "\<forall>bs :: bytes. \<exists>t. btoa P (map ucast bs) = Inr t \<and> atob P t = Inr (map ucast bs)
                      \<and> (bs \<noteq> [] \<longrightarrow> t \<noteq> [])"
    and key: "deriveKey P k = Inr key"
    and aead: "\<forall>n m. \<exists>c. encryptAESGCM P key n m = Inr c \<and> decryptAESGCM P key n c = Inr m"
    and utf: "textDecode P (textEncode P p) = p"
    and iv: "length iv = 12" and iv': "length iv' = 12"
  shows "(\<exists>payload. encryptBodyWithKey P p k iv = Inr payload
            \<and> decryptBodyWithKey P payload k = Inr p)
    \<and> (p \<noteq> [] \<and> iv \<noteq> iv' \<longrightarrow>
          encryptBodyWithKey P p k iv \<noteq> encryptBodyWithKey P p k iv')
    \<and> (p = [] \<longrightarrow> encryptBodyWithKey P p k iv = Inr [] \<and> encryptBodyWithKey P p k iv' = Inr [])"
proof -
  have enc: "\<And>n. length n = 12 \<Longrightarrow> p \<noteq> [] \<Longrightarrow>
      \<exists>c t. encryptAESGCM P key n (textEncode P p) = Inr c
         \<and> encryptBodyWithKey P p k n = Inr t \<and> t \<noteq> []
         \<and> atob P t = Inr (map ucast (n @ c))
         \<and> decryptAESGCM P key n c = Inr (textEncode P p)"
  proof -
    fix n :: bytes assume n: "length n = 12" and ne: "p \<noteq> []"
    from aead have "\<exists>c. encryptAESGCM P key n (textEncode P p) = Inr c
        \<and> decryptAESGCM P key n c = Inr (textEncode P p)"
      by (elim allE)
    then obtain c where c: "encryptAESGCM P key n (textEncode P p) = Inr c"
      and d: "decryptAESGCM P key n c = Inr (textEncode P p)"
      by (elim exE conjE)
    from b64 have "\<exists>t. btoa P (map ucast (n @ c)) = Inr t
        \<and> atob P t = Inr (map ucast (n @ c)) \<and> (n @ c \<noteq> [] \<longrightarrow> t \<noteq> [])"
      by (elim allE)
    then obtain t where t: "btoa P (map ucast (n @ c)) = Inr t"
      and a: "atob P t = Inr (map ucast (n @ c))" and i: "n @ c \<noteq> [] \<longrightarrow> t \<noteq> []"
      by (elim exE conjE)
    from n have "n \<noteq> []" by auto
    with i have tne: "t \<noteq> []" by simp
    have "encryptBodyWithKey P p k n = Inr t"
      using ne key c t by (simp add: encryptBodyWithKey_def toBase64_def)
    with c tne a d show "\<exists>c t. encryptAESGCM P key n (textEncode P p) = Inr c
         \<and> encryptBodyWithKey P p k n = Inr t \<and> t \<noteq> []
         \<and> atob P t = Inr (map ucast (n @ c))
         \<and> decryptAESGCM P key n c = Inr (textEncode P p)" by blast
  qed
  have rt: "\<exists>payload. encryptBodyWithKey P p k iv = Inr payload
            \<and> decryptBodyWithKey P payload k = Inr p"
  proof (cases "p = []")
    case True
    then show ?thesis
      by (simp add: encryptBodyWithKey_def decryptBodyWithKey_def)
  next
    case False
    from enc [OF iv False] obtain c t where e: "encryptBodyWithKey P p k iv = Inr t"
      and tne: "t \<noteq> []" and a: "atob P t = Inr (map ucast (iv @ c))"
      and d: "decryptAESGCM P key iv c = Inr (textEncode P p)" by blast
    have "fromBase64 P t = Inr (iv @ c)"
      using a bytes_of_binary [of "iv @ c"] by (simp add: fromBase64_def)
    then have "decryptBodyWithKey P t k = Inr p"
      using tne key d utf iv by (simp add: decryptBodyWithKey_def)
    with e show ?thesis by blast
  qed
  have ne: "p \<noteq> [] \<and> iv \<noteq> iv' \<longrightarrow>
          encryptBodyWithKey P p k iv \<noteq> encryptBodyWithKey P p k iv'"
  proof (intro impI notI, elim conjE)
    assume p: "p \<noteq> []" and d: "iv \<noteq> iv'"
      and eq: "encryptBodyWithKey P p k iv = encryptBodyWithKey P p k iv'"
    from enc [OF iv p] obtain c t where e: "encryptBodyWithKey P p k iv = Inr t"
      and a: "atob P t = Inr (map ucast (iv @ c))" by blast
    from enc [OF iv' p] obtain c' t' where e': "encryptBodyWithKey P p k iv' = Inr t'"
      and a': "atob P t' = Inr (map ucast (iv' @ c'))" by blast
    from eq e e' have "t = t'" by simp
    with a a' have "map (\<lambda>b. (ucast (b :: 8 word) :: 16 word)) (iv @ c) = map (\<lambda>b. (ucast b :: 16 word)) (iv' @ c')" by simp
    then have "iv @ c = iv' @ c'" by (rule binary_inj)
    with iv iv' have "iv = iv'" by simp
    with d show False by simp
  qed
  have em: "p = [] \<longrightarrow> encryptBodyWithKey P p k iv = Inr [] \<and> encryptBodyWithKey P p k iv' = Inr []"
    by (simp add: encryptBodyWithKey_def)
  from rt ne em show ?thesis by blast
qed

text \<open>
  Claim C2, as amended. On a platform with the standard text codec, where \<^verbatim>\<open>atob\<close>
  inverts \<^verbatim>\<open>btoa\<close> on byte strings (and the encoding of a non-empty one is not empty),
  the derived key imports and AES-GCM decryption inverts encryption under one key and
  nonce: for every secret, every 12-byte nonce and every well-formed plaintext \<open>p\<close> that
  does not begin with U+FEFF, the empty string included, decrypting the encryption of
  \<open>p\<close> gives \<open>p\<close>. Two encryptions of the same non-empty such plaintext under the same
  secret with different nonces give different payloads, and each decrypts to the
  plaintext. For the empty plaintext both payloads are the empty string.
\<close>

theorem envelope_round_trip:
  assumes codec: "textEncode P = TextEncoder_encode" "textDecode P = TextDecoder_decode"
    and b64: "\<forall>bs :: bytes. \<exists>t. btoa P (map ucast bs) = Inr t \<and> atob P t = Inr (map ucast bs)
                      \<and> (bs \<noteq> [] \<longrightarrow> t \<noteq> [])"
    and key: "deriveKey P k = Inr key"
    and aead: "\<forall>n m. \<exists>c. encryptAESGCM P key n m = Inr c \<and> decryptAESGCM P key n c = Inr m"
    and wf: "wellFormed p" and bom: "p = [] \<or> hd p \<noteq> 65279"
    and iv: "length iv = 12" and iv': "length iv' = 12"
  shows "(\<exists>payload. encryptBodyWithKey P p k iv = Inr payload
            \<and> decryptBodyWithKey P payload k = Inr p)
    \<and> (p \<noteq> [] \<and> iv \<noteq> iv' \<longrightarrow>
          encryptBodyWithKey P p k iv \<noteq> encryptBodyWithKey P p k iv')
    \<and> (p = [] \<longrightarrow> encryptBodyWithKey P p k iv = Inr [] \<and> encryptBodyWithKey P p k iv' = Inr [])"
proof -
  have "textDecode P (textEncode P p) = p"
    unfolding codec by (rule codec_round_trip [OF wf bom])
  from round_trip_generic [OF b64 key aead this iv iv'] show ?thesis .
qed

theorem envelope_round_trip_witness:
  "textEncode web = TextEncoder_encode \<and> textDecode web = TextDecoder_decode
   \<and> deriveKey web demo_secret = Inr demo_key
   \<and> wellFormed demo_text \<and> hd demo_text \<noteq> 65279 \<and> demo_text \<noteq> []
   \<and> length demo_iv1 = 12 \<and> length demo_iv2 = 12 \<and> demo_iv1 \<noteq> demo_iv2
   \<and> (\<exists>payload. encryptBodyWithKey web demo_text demo_secret demo_iv1 = Inr payload
         \<and> decryptBodyWithKey web payload demo_secret = Inr demo_text)
   \<and> encryptBodyWithKey web demo_text demo_secret demo_iv1
       \<noteq> encryptBodyWithKey web demo_text demo_secret demo_iv2
   \<and> (\<exists>payload. encryptBodyWithKey web [] demo_secret demo_iv1 = Inr payload
         \<and> decryptBodyWithKey web payload demo_secret = Inr [])"
proof -
  note t = envelope_round_trip [OF web_fields(1) web_fields(2) web_base64 web_key web_aead
      demo_text_ok(1) demo_text_ok(2) demo_iv_lengths(1) demo_iv_lengths(2)]
  have e: "wellFormed []" "[] = [] \<or> hd ([] :: jsstring) \<noteq> 65279" by simp_all
  note t0 = envelope_round_trip [OF web_fields(1) web_fields(2) web_base64 web_key web_aead
      e demo_iv_lengths(1) demo_iv_lengths(2)]
  have h: "hd demo_text \<noteq> 65279" by (simp add: demo_text_def)
  from t have r: "\<exists>payload. encryptBodyWithKey web demo_text demo_secret demo_iv1 = Inr payload
         \<and> decryptBodyWithKey web payload demo_secret = Inr demo_text"
    by (rule conjunct1)
  from t demo_text_ok(3) demo_iv_lengths(3)
  have d: "encryptBodyWithKey web demo_text demo_secret demo_iv1
       \<noteq> encryptBodyWithKey web demo_text demo_secret demo_iv2"
    by blast
  from t0 have r0: "\<exists>payload. encryptBodyWithKey web [] demo_secret demo_iv1 = Inr payload
         \<and> decryptBodyWithKey web payload demo_secret = Inr []"
    by (rule conjunct1)
  from web_fields(1) web_fields(2) web_key demo_text_ok(1) h demo_text_ok(3) demo_iv_lengths r d r0
  show ?thesis by (intro conjI)
qed

text \<open>
  Claim C2 as stated fails in two places. At the empty plaintext \<open>encryptBodyWithKey\<close>
  returns the empty payload before it derives a key or looks at the nonce, so two
  encryptions with different nonces give the same payload. And the round trip does not
  give every plaintext back: a surrogate on its own is encoded as U+FFFD and comes back as
  U+FFFD, and a leading U+FEFF is dropped by the decoder.
\<close>

theorem envelope_counterexample:
  "encryptBodyWithKey web [] demo_secret demo_iv1 = Inr []
   \<and> encryptBodyWithKey web [] demo_secret demo_iv2 = Inr []
   \<and> demo_iv1 \<noteq> demo_iv2
   \<and> encryptBodyWithKey web [55296] demo_secret demo_iv1 = Inr demo_payload_surrogate
   \<and> decryptBodyWithKey web demo_payload_surrogate demo_secret = Inr [65533]
   \<and> encryptBodyWithKey web [65279, 104] demo_secret demo_iv1 = Inr demo_payload_bom
   \<and> decryptBodyWithKey web demo_payload_bom demo_secret = Inr [104]"
  using web_enc_surrogate web_dec_surrogate web_enc_bom web_dec_bom demo_iv_lengths(3)
  by (simp add: encryptBodyWithKey_def)

text \<open>
  Claim C9, as amended. On a platform whose AES-GCM decryption accepts only what
  encryption under the same key and nonce produces: when \<open>decryptBodyWithKey\<close> returns a
  plaintext for a non-empty payload, the bytes \<^verbatim>\<open>atob\<close> reads from the payload are a
  nonce followed by the ciphertext that encryption under the key of the secret produces
  for a message, and the plaintext is the decoding of that message. A rejection by
  \<^verbatim>\<open>atob\<close> or by AES-GCM (bytes corrupted or cut short, or made under another key) is
  the result of \<open>decryptBodyWithKey\<close>, never a plaintext. Secrets that agree after
  lower-casing decrypt alike.
\<close>

theorem decrypt_authenticated:
  assumes "\<forall>key n c m. decryptAESGCM P key n c = Inr m \<longrightarrow> encryptAESGCM P key n m = Inr c"
  shows "(payload \<noteq> [] \<and> decryptBodyWithKey P payload k = Inr p \<longrightarrow>
            (\<exists>raw key m. fromBase64 P payload = Inr raw \<and> deriveKey P k = Inr key
               \<and> decryptAESGCM P key (take 12 raw) (drop 12 raw) = Inr m
               \<and> encryptAESGCM P key (take 12 raw) m = Inr (drop 12 raw)
               \<and> p = textDecode P m))
    \<and> (payload \<noteq> [] \<and> fromBase64 P payload = Inl e \<longrightarrow>
          decryptBodyWithKey P payload k = Inl e)
    \<and> (payload \<noteq> [] \<and> fromBase64 P payload = Inr raw \<and> deriveKey P k = Inr key
          \<and> decryptAESGCM P key (take 12 raw) (drop 12 raw) = Inl e \<longrightarrow>
          decryptBodyWithKey P payload k = Inl e)
    \<and> (toLowerCase P k' = toLowerCase P k \<longrightarrow>
          decryptBodyWithKey P payload k' = decryptBodyWithKey P payload k)"
proof -
  have a: "payload \<noteq> [] \<and> decryptBodyWithKey P payload k = Inr p \<longrightarrow>
            (\<exists>raw key m. fromBase64 P payload = Inr raw \<and> deriveKey P k = Inr key
               \<and> decryptAESGCM P key (take 12 raw) (drop 12 raw) = Inr m
               \<and> encryptAESGCM P key (take 12 raw) m = Inr (drop 12 raw)
               \<and> p = textDecode P m)"
  proof (intro impI, elim conjE)
    assume ne: "payload \<noteq> []" and d: "decryptBodyWithKey P payload k = Inr p"
    from ne d obtain raw where r: "fromBase64 P payload = Inr raw"
      by (cases "fromBase64 P payload") (simp_all add: decryptBodyWithKey_def)
    from ne d r obtain key where y: "deriveKey P k = Inr key"
      by (cases "deriveKey P k") (simp_all add: decryptBodyWithKey_def Let_def)
    from ne d r y obtain m where m: "decryptAESGCM P key (take 12 raw) (drop 12 raw) = Inr m"
      by (cases "decryptAESGCM P key (take 12 raw) (drop 12 raw)")
        (simp_all add: decryptBodyWithKey_def Let_def)
    from ne d r y m have p: "p = textDecode P m"
      by (simp add: decryptBodyWithKey_def Let_def)
    from assms m have "encryptAESGCM P key (take 12 raw) m = Inr (drop 12 raw)"
      by (elim allE impE)
    with r y m p show "\<exists>raw key m. fromBase64 P payload = Inr raw \<and> deriveKey P k = Inr key
               \<and> decryptAESGCM P key (take 12 raw) (drop 12 raw) = Inr m
               \<and> encryptAESGCM P key (take 12 raw) m = Inr (drop 12 raw)
               \<and> p = textDecode P m"
      by (intro exI conjI)
  qed
  have b: "payload \<noteq> [] \<and> fromBase64 P payload = Inl e \<longrightarrow>
          decryptBodyWithKey P payload k = Inl e"
    by (simp add: decryptBodyWithKey_def)
  have c: "payload \<noteq> [] \<and> fromBase64 P payload = Inr raw \<and> deriveKey P k = Inr key
          \<and> decryptAESGCM P key (take 12 raw) (drop 12 raw) = Inl e \<longrightarrow>
          decryptBodyWithKey P payload k = Inl e"
    by (simp add: decryptBodyWithKey_def Let_def)
  have d: "toLowerCase P k' = toLowerCase P k \<longrightarrow>
          decryptBodyWithKey P payload k' = decryptBodyWithKey P payload k"
  proof
    assume "toLowerCase P k' = toLowerCase P k"
    then have h: "deriveKey P k' = deriveKey P k" by (rule deriveKey_normalized)
    show "decryptBodyWithKey P payload k' = decryptBodyWithKey P payload k"
      unfolding decryptBodyWithKey_def h by (rule refl)
  qed
  from a b c d show ?thesis by (intro conjI)
qed

theorem decrypt_authenticated_witness:
  "demo_payload \<noteq> []
   \<and> encryptBodyWithKey web demo_body demo_secret demo_iv1 = Inr demo_payload
   \<and> decryptBodyWithKey web demo_payload demo_secret = Inr demo_body
   \<and> (\<exists>raw key m. fromBase64 web demo_payload = Inr raw \<and> deriveKey web demo_secret = Inr key
         \<and> decryptAESGCM web key (take 12 raw) (drop 12 raw) = Inr m
         \<and> encryptAESGCM web key (take 12 raw) m = Inr (drop 12 raw)
         \<and> demo_body = textDecode web m)
   \<and> fromBase64 web [42] = Inl InvalidCharacterError
   \<and> decryptBodyWithKey web [42] demo_secret = Inl InvalidCharacterError
   \<and> fromBase64 web demo_short = Inr [0, 1, 2, 3, 4, 5]
   \<and> decryptAESGCM web demo_key (take 12 [0, 1, 2, 3, 4, 5]) (drop 12 [0, 1, 2, 3, 4, 5])
       = Inl OperationError
   \<and> decryptBodyWithKey web demo_short demo_secret = Inl OperationError
   \<and> deriveKey web [49, 120, 65, 98] = Inr ([49, 120, 97, 98] @ replicate 28 0)
   \<and> decryptBodyWithKey web demo_payload [49, 120, 65, 98] = Inl OperationError
   \<and> toLowerCase web [48, 120, 65, 66] = toLowerCase web demo_secret
   \<and> decryptBodyWithKey web demo_payload [48, 120, 65, 66] = Inr demo_body"
proof -
  note t = decrypt_authenticated [OF web_authentic]
  let ?raw = "demo_iv1 @ [105, 104]
         @ [48, 48, 48, 48, 48, 48, 48, 48, 48, 48, 48, 48, 48, 48, 48, 48]"
  have ne: "demo_payload \<noteq> []" by (simp add: demo_payload_def)
  from t [of demo_payload demo_secret demo_body] ne web_dec_body
  have c1: "\<exists>raw key m. fromBase64 web demo_payload = Inr raw \<and> deriveKey web demo_secret = Inr key
         \<and> decryptAESGCM web key (take 12 raw) (drop 12 raw) = Inr m
         \<and> encryptAESGCM web key (take 12 raw) m = Inr (drop 12 raw)
         \<and> demo_body = textDecode web m"
    by blast
  from t [of "[42]" demo_secret _ InvalidCharacterError] atob_star
  have c2: "decryptBodyWithKey web [42] demo_secret = Inl InvalidCharacterError"
    by simp
  have d3: "decryptAESGCM web demo_key (take 12 [0, 1, 2, 3, 4, 5]) (drop 12 [0, 1, 2, 3, 4, 5])
       = Inl OperationError"
    by (simp add: web_fields toy_decrypt_def)
  have n3: "demo_short \<noteq> []" by (simp add: demo_short_def)
  from t [of demo_short demo_secret _ OperationError "[0, 1, 2, 3, 4, 5]" demo_key]
    n3 atob_short d3 web_key
  have c3: "decryptBodyWithKey web demo_short demo_secret = Inl OperationError"
    by simp
  have d5: "decryptAESGCM web ([49, 120, 97, 98] @ replicate 28 0)
      (take 12 ?raw) (drop 12 ?raw) = Inl OperationError"
    by (simp add: demo_iv1_def) (simp add: web_fields toy_decrypt_def toy_tag_def replicate_16)
  from t [of demo_payload "[49, 120, 65, 98]" _ OperationError ?raw
      "[49, 120, 97, 98] @ replicate 28 0"]
    ne atob_body web_other_key d5
  have c5: "decryptBodyWithKey web demo_payload [49, 120, 65, 98] = Inl OperationError"
    by simp
  have l: "toLowerCase web [48, 120, 65, 66] = toLowerCase web demo_secret"
    by (simp add: web_fields demo_secret_def)
  from t [of demo_payload demo_secret _ _ _ _ "[48, 120, 65, 66]"] l web_dec_body
  have c4: "decryptBodyWithKey web demo_payload [48, 120, 65, 66] = Inr demo_body"
    by simp
  from ne web_enc_body web_dec_body c1 atob_star c2 atob_short d3 c3 web_other_key c5 l c4
  show ?thesis by (intro conjI)
qed

text \<open>
  Claim C9 as stated fails for a payload that differs from an output of
  \<open>encryptBodyWithKey\<close> in its base64 spelling only: \<^verbatim>\<open>atob\<close> skips whitespace, so the
  payload for \<^verbatim>\<open>hi\<close> with a space appended, which no call of \<open>encryptBodyWithKey\<close>
  produces, decrypts to \<^verbatim>\<open>hi\<close>.
\<close>

theorem decrypt_respelled_counterexample:
  "encryptBodyWithKey web demo_body demo_secret demo_iv1 = Inr demo_payload
   \<and> demo_payload @ [32] \<noteq> demo_payload
   \<and> (\<forall>p k iv. encryptBodyWithKey web p k iv \<noteq> Inr (demo_payload @ [32]))
   \<and> decryptBodyWithKey web (demo_payload @ [32]) demo_secret = Inr demo_body"
  using web_enc_body web_never_spaced web_dec_spaced by simp

end
